theory Spec2Isabelle
  imports Main "HOL-Library.Word"
begin

unbundle bit_operations_syntax

section \<open>The process-control operations of sys/kern/kern_procctl.c\<close>

subsection \<open>Constants of the headers\<close>

text \<open>
  Modelled from the spec: the headers that declare the constants below (sys/errno.h,
  sys/proc.h, sys/procctl.h, sys/signalvar.h, sys/wait.h) are not part of the sources at
  hand. The spec names what they stand for (InvalidArgument, PermissionDenied, NotFound,
  Busy, RestrictedContext; the protection, trace and reaper flags; the command set) but not
  their numbers; the numbers are the ones of the FreeBSD headers the file is compiled
  against. The theorems only depend on the error numbers being nonzero and distinct and on
  the flags being distinct bits.
\<close>

definition EPERM :: int where "EPERM = 1"
definition ESRCH :: int where "ESRCH = 3"
definition EBUSY :: int where "EBUSY = 16"
definition EINVAL :: int where "EINVAL = 22"
definition ECAPMODE :: int where "ECAPMODE = 94"

definition P_SYSTEM :: "32 word" where "P_SYSTEM = 0x200"
definition P_TRACED :: "32 word" where "P_TRACED = 0x800"
definition P_PROTECTED :: "32 word" where "P_PROTECTED = 0x100000"
definition P2_INHERIT_PROTECTED :: "32 word" where "P2_INHERIT_PROTECTED = 0x1"
definition P2_NOTRACE :: "32 word" where "P2_NOTRACE = 0x2"
definition P2_NOTRACE_EXEC :: "32 word" where "P2_NOTRACE_EXEC = 0x4"
definition P_TREE_REAPER :: "32 word" where "P_TREE_REAPER = 0x4"

definition PPROT_SET :: "32 word" where "PPROT_SET = 1"
definition PPROT_CLEAR :: "32 word" where "PPROT_CLEAR = 2"
definition PPROT_DESCEND :: "32 word" where "PPROT_DESCEND = 0x10"
definition PPROT_INHERIT :: "32 word" where "PPROT_INHERIT = 0x20"

definition PPROT_OP :: "32 word \<Rightarrow> 32 word" where "PPROT_OP x = x AND 0xf"
definition PPROT_FLAGS :: "32 word \<Rightarrow> 32 word" where "PPROT_FLAGS x = x AND NOT 0xf"

definition REAPER_STATUS_OWNED :: "32 word" where "REAPER_STATUS_OWNED = 0x1"
definition REAPER_STATUS_REALINIT :: "32 word" where "REAPER_STATUS_REALINIT = 0x2"
definition REAPER_PIDINFO_VALID :: "32 word" where "REAPER_PIDINFO_VALID = 0x1"
definition REAPER_PIDINFO_CHILD :: "32 word" where "REAPER_PIDINFO_CHILD = 0x2"
definition REAPER_KILL_CHILDREN :: "32 word" where "REAPER_KILL_CHILDREN = 0x1"
definition REAPER_KILL_SUBTREE :: "32 word" where "REAPER_KILL_SUBTREE = 0x2"

definition PROC_TRACE_CTL_ENABLE :: "32 word" where "PROC_TRACE_CTL_ENABLE = 1"
definition PROC_TRACE_CTL_DISABLE :: "32 word" where "PROC_TRACE_CTL_DISABLE = 2"
definition PROC_TRACE_CTL_DISABLE_EXEC :: "32 word" where "PROC_TRACE_CTL_DISABLE_EXEC = 3"

definition PROC_SPROTECT :: int where "PROC_SPROTECT = 1"
definition PROC_REAP_ACQUIRE :: int where "PROC_REAP_ACQUIRE = 2"
definition PROC_REAP_RELEASE :: int where "PROC_REAP_RELEASE = 3"
definition PROC_REAP_STATUS :: int where "PROC_REAP_STATUS = 4"
definition PROC_REAP_GETPIDS :: int where "PROC_REAP_GETPIDS = 5"
definition PROC_REAP_KILL :: int where "PROC_REAP_KILL = 6"
definition PROC_TRACE_CTL :: int where "PROC_TRACE_CTL = 7"
definition PROC_TRACE_STATUS :: int where "PROC_TRACE_STATUS = 8"

definition P_PID :: int where "P_PID = 0"
definition P_PGID :: int where "P_PGID = 2"

definition SIG_MAXSIG :: int where "SIG_MAXSIG = 128"
definition SI_USER :: int where "SI_USER = 0x10001"

subsection \<open>Process records, threads and the collaborators\<close>

text \<open>
  A \<open>struct proc *\<close> is a handle; the process table is a function from handles to records
  and NULL is \<open>None\<close>. The queue(3) lists are kept intrusive, as in the source:
  \<open>p_children\<close> is \<open>LIST_FIRST(&p->p_children)\<close>, \<open>p_sibling\<close> is
  \<open>LIST_NEXT(p, p_sibling)\<close>, and likewise for the reap list and the process-group list.
  The \<open>int\<close> and \<open>u_int\<close> fields that carry bits, counters or pids are 32-bit words.
\<close>

type_synonym handle = nat

datatype proc_state = PRS_NEW | PRS_NORMAL | PRS_ZOMBIE

record proc =
  p_pid :: "32 word"
  p_state :: proc_state
  p_flag :: "32 word"
  p_flag2 :: "32 word"
  p_treeflag :: "32 word"
  p_traceflag :: "32 word"
  p_pptr :: "handle option"
  p_children :: "handle option"
  p_sibling :: "handle option"
  p_reaper :: "handle option"
  p_reaplist :: "handle option"
  p_reapsibling :: "handle option"
  p_reapsubtree :: "32 word"
  p_pglist :: "handle option"

type_synonym heap = "handle \<Rightarrow> proc"

record thread =
  td_proc :: handle
  td_capmode :: bool
  td_ruid :: "32 word"

record pgrp =
  pg_members :: "handle option"

text \<open>
  A KASSERT that fails and a NULL pointer that is followed stop the kernel: \<open>Panic\<close>.
\<close>

datatype 'a outcome = Panic | Ret 'a

type_synonym uaddr = nat

record procctl_reaper_status =
  rs_flags :: "32 word"
  rs_children :: "32 word"
  rs_descendants :: "32 word"
  rs_reaper :: "32 word"
  rs_pid :: "32 word"

record procctl_reaper_pidinfo =
  pi_pid :: "32 word"
  pi_subtree :: "32 word"
  pi_flags :: "32 word"

record procctl_reaper_pids =
  rp_count :: "32 word"
  rp_pids :: "uaddr option"

record procctl_reaper_kill =
  rk_sig :: int
  rk_flags :: "32 word"
  rk_subtree :: "32 word"
  rk_killed :: "32 word"
  rk_fpid :: "32 word"

record ksiginfo =
  ksi_signo :: int
  ksi_code :: int
  ksi_pid :: "32 word"
  ksi_uid :: "32 word"

text \<open>
  What a \<open>void *data\<close> of the entry points refers to, and what \<open>copyout\<close> writes.
\<close>

datatype pdata =
  DNull
| DInt "32 word"
| DStatus procctl_reaper_status
| DPids procctl_reaper_pids
| DKill procctl_reaper_kill
| DPidinfo "procctl_reaper_pidinfo list"

text \<open>
  The functions the file calls and does not define (the permission predicates, the lookups,
  \<open>proc_realparent\<close>, \<open>reaper_abandon_children\<close>, \<open>copyin\<close>, \<open>copyout\<close>) and the global
  \<open>initproc\<close> are parameters. A permission predicate is a function of the thread and the
  process handle: it reads credentials, none of the fields written here. \<open>relock\<close> is what
  other threads made of the process table while \<open>proctree_lock\<close> was dropped.
\<close>

record kenv =
  initproc :: handle
  p_cansched :: "thread \<Rightarrow> handle \<Rightarrow> int"
  p_cansee :: "thread \<Rightarrow> handle \<Rightarrow> int"
  p_cansignal :: "thread \<Rightarrow> handle \<Rightarrow> int \<Rightarrow> int"
  priv_check :: "thread \<Rightarrow> int"
  proc_realparent :: "heap \<Rightarrow> handle \<Rightarrow> handle option"
  reaper_abandon_children :: "heap \<Rightarrow> handle \<Rightarrow> bool \<Rightarrow> heap"
  pfind :: "int \<Rightarrow> handle option"
  pgfind :: "int \<Rightarrow> pgrp option"
  copyin_int :: "uaddr option \<Rightarrow> int \<times> 32 word"
  copyin_rp :: "uaddr option \<Rightarrow> int \<times> procctl_reaper_pids"
  copyin_rk :: "uaddr option \<Rightarrow> int \<times> procctl_reaper_kill"
  copyout :: "uaddr option \<Rightarrow> int"
  relock :: "heap \<Rightarrow> heap"

text \<open>
  The kernel state: the process table, the signals handed to \<open>pksignal\<close> and the objects
  that \<open>copyout\<close> stored in user memory, both in the order of the calls.
\<close>

record procctl_args =
  uap_idtype :: int
  uap_id :: int
  uap_com :: int
  uap_data :: "uaddr option"

record kstate =
  procs :: heap
  delivered :: "(handle \<times> ksiginfo) list"
  copied_out :: "(uaddr option \<times> pdata) list"

text \<open>
  \<open>curproc\<close> is the process of the running thread, and the thread \<open>td\<close> that the entry
  points pass down is the running one. The locks (\<open>proctree_lock\<close>, the process locks) and
  their assertions are not part of the model; what other threads do while \<open>proctree_lock\<close>
  is dropped is \<open>relock\<close>.
\<close>

definition curproc :: "thread \<Rightarrow> handle" where
  "curproc td = td_proc td"

subsection \<open>Protection of a single process\<close>

definition protect_setchild :: "kenv \<Rightarrow> thread \<Rightarrow> heap \<Rightarrow> handle \<Rightarrow> 32 word \<Rightarrow> 32 word \<times> heap" where
  "protect_setchild env td h p flags =
    (if p_flag (h p) AND P_SYSTEM \<noteq> 0 \<or> p_cansched env td p \<noteq> 0 then (0, h)
     else if flags AND PPROT_SET \<noteq> 0 then
       (1, h(p := (h p)\<lparr>p_flag := p_flag (h p) OR P_PROTECTED,
                        p_flag2 := (if flags AND PPROT_INHERIT \<noteq> 0
                                    then p_flag2 (h p) OR P2_INHERIT_PROTECTED
                                    else p_flag2 (h p))\<rparr>))
     else
       (1, h(p := (h p)\<lparr>p_flag := p_flag (h p) AND NOT P_PROTECTED,
                        p_flag2 := p_flag2 (h p) AND NOT P2_INHERIT_PROTECTED\<rparr>)))"

subsection \<open>Reaper lifecycle\<close>

definition reap_acquire :: "thread \<Rightarrow> heap \<Rightarrow> handle \<Rightarrow> int \<times> heap" where
  "reap_acquire td h p =
    (if p \<noteq> curproc td then (EPERM, h)
     else if p_treeflag (h p) AND P_TREE_REAPER \<noteq> 0 then (EBUSY, h)
     else (0, h(p := (h p)\<lparr>p_treeflag := p_treeflag (h p) OR P_TREE_REAPER\<rparr>)))"

definition reap_release :: "kenv \<Rightarrow> thread \<Rightarrow> heap \<Rightarrow> handle \<Rightarrow> int \<times> heap" where
  "reap_release env td h p =
    (if p \<noteq> curproc td then (EPERM, h)
     else if p = initproc env then (EINVAL, h)
     else if p_treeflag (h p) AND P_TREE_REAPER = 0 then (EINVAL, h)
     else (0, reaper_abandon_children env h p False))"

subsection \<open>Trace control\<close>

definition trace_ctl :: "thread \<Rightarrow> heap \<Rightarrow> handle \<Rightarrow> 32 word \<Rightarrow> (int \<times> heap) outcome" where
  "trace_ctl td h p state =
    (if p_flag (h p) AND P_TRACED \<noteq> 0 \<or> p_traceflag (h p) \<noteq> 0 then Ret (EBUSY, h)
     else if state = PROC_TRACE_CTL_ENABLE then
       (if td_proc td \<noteq> p then Ret (EPERM, h)
        else Ret (0, h(p := (h p)\<lparr>p_flag2 :=
                 p_flag2 (h p) AND NOT (P2_NOTRACE OR P2_NOTRACE_EXEC)\<rparr>)))
     else if state = PROC_TRACE_CTL_DISABLE_EXEC then
       Ret (0, h(p := (h p)\<lparr>p_flag2 := p_flag2 (h p) OR (P2_NOTRACE_EXEC OR P2_NOTRACE)\<rparr>))
     else if state = PROC_TRACE_CTL_DISABLE then
       (if p_flag2 (h p) AND P2_NOTRACE_EXEC \<noteq> 0 then
          (if p_flag2 (h p) AND P2_NOTRACE = 0 then Panic
           else if td_proc td \<noteq> p then Ret (EPERM, h)
           else Ret (0, h(p := (h p)\<lparr>p_flag2 := p_flag2 (h p) AND NOT P2_NOTRACE_EXEC\<rparr>)))
        else Ret (0, h(p := (h p)\<lparr>p_flag2 := p_flag2 (h p) OR P2_NOTRACE\<rparr>)))
     else Ret (EINVAL, h))"

definition trace_status :: "heap \<Rightarrow> handle \<Rightarrow> (int \<times> 32 word) outcome" where
  "trace_status h p =
    (if p_flag2 (h p) AND P2_NOTRACE \<noteq> 0 then
       (if p_flag (h p) AND P_TRACED \<noteq> 0 then Panic else Ret (0, - 1))
     else if p_flag (h p) AND P_TRACED \<noteq> 0 then
       (case p_pptr (h p) of None \<Rightarrow> Panic | Some pp \<Rightarrow> Ret (0, p_pid (h pp)))
     else Ret (0, 0))"


subsection \<open>Protection of a subtree\<close>

text \<open>
  The inner \<open>for (;;)\<close> of \<open>protect_setchildren\<close>: from a process without children, go to
  the next sibling, or up to the parent and on from there, but not past \<open>top\<close>. The result
  is \<open>None\<close> when \<open>top\<close> is reached and the next process to visit otherwise.
\<close>

partial_function (option) setchildren_ascend ::
  "heap \<Rightarrow> handle \<Rightarrow> handle \<Rightarrow> handle option outcome option" where
  "setchildren_ascend h top' p =
    (if p = top' then Some (Ret None)
     else case p_sibling (h p) of
       Some q \<Rightarrow> Some (Ret (Some q))
     | None \<Rightarrow> (case p_pptr (h p) of
         None \<Rightarrow> Some Panic
       | Some pp \<Rightarrow> setchildren_ascend h top' pp))"

text \<open>The outer \<open>for (;;)\<close>: visit \<open>p\<close>, then descend to its first child or ascend.\<close>

partial_function (option) setchildren_loop ::
  "kenv \<Rightarrow> thread \<Rightarrow> 32 word \<Rightarrow> handle \<Rightarrow> handle \<Rightarrow> 32 word \<Rightarrow> heap
    \<Rightarrow> (32 word \<times> heap) outcome option" where
  "setchildren_loop env td flags top' p ret h =
    (let r = protect_setchild env td h p flags;
         ret' = ret OR fst r;
         h' = snd r
     in case p_children (h' p) of
       Some c \<Rightarrow> setchildren_loop env td flags top' c ret' h'
     | None \<Rightarrow> Option.bind (setchildren_ascend h' top' p) (\<lambda>a.
         case a of
           Panic \<Rightarrow> Some Panic
         | Ret None \<Rightarrow> Some (Ret (ret', h'))
         | Ret (Some q) \<Rightarrow> setchildren_loop env td flags top' q ret' h'))"

definition protect_setchildren ::
  "kenv \<Rightarrow> thread \<Rightarrow> heap \<Rightarrow> handle \<Rightarrow> 32 word \<Rightarrow> (32 word \<times> heap) outcome option" where
  "protect_setchildren env td h top' flags = setchildren_loop env td flags top' top' 0 h"

text \<open>\<open>priv_check env td\<close> is \<open>priv_check(td, PRIV_VM_MADV_PROTECT)\<close>.\<close>

definition protect_set ::
  "kenv \<Rightarrow> thread \<Rightarrow> heap \<Rightarrow> handle \<Rightarrow> 32 word \<Rightarrow> (int \<times> heap) outcome option" where
  "protect_set env td h p flags =
    (if PPROT_OP flags \<noteq> PPROT_SET \<and> PPROT_OP flags \<noteq> PPROT_CLEAR then Some (Ret (EINVAL, h))
     else if PPROT_FLAGS flags AND NOT (PPROT_DESCEND OR PPROT_INHERIT) \<noteq> 0
       then Some (Ret (EINVAL, h))
     else if priv_check env td \<noteq> 0 then Some (Ret (priv_check env td, h))
     else Option.bind
       (if flags AND PPROT_DESCEND \<noteq> 0 then protect_setchildren env td h p flags
        else Some (Ret (protect_setchild env td h p flags)))
       (\<lambda>r. case r of
          Panic \<Rightarrow> Some Panic
        | Ret (ret, h') \<Rightarrow> Some (Ret (if ret = 0 then EPERM else 0, h'))))"

subsection \<open>Reaper introspection\<close>

text \<open>The reaper an operation works on: the process itself when it is one, else \<open>p_reaper\<close>.\<close>

definition reaper_of :: "heap \<Rightarrow> handle \<Rightarrow> handle option" where
  "reaper_of h p =
    (if p_treeflag (h p) AND P_TREE_REAPER = 0 then p_reaper (h p) else Some p)"

partial_function (option) reap_status_loop ::
  "kenv \<Rightarrow> heap \<Rightarrow> handle \<Rightarrow> handle option \<Rightarrow> procctl_reaper_status
    \<Rightarrow> procctl_reaper_status option" where
  "reap_status_loop env h reap p2 rs =
    (case p2 of
       None \<Rightarrow> Some rs
     | Some q \<Rightarrow> reap_status_loop env h reap (p_reapsibling (h q))
         (rs\<lparr>rs_children := (if proc_realparent env h q = Some reap
                               then rs_children rs + 1 else rs_children rs),
             rs_descendants := rs_descendants rs + 1\<rparr>))"

definition reap_status ::
  "kenv \<Rightarrow> heap \<Rightarrow> handle \<Rightarrow> (int \<times> procctl_reaper_status) outcome option" where
  "reap_status env h p =
    (case reaper_of h p of
       None \<Rightarrow> Some Panic
     | Some reap \<Rightarrow>
        (let rs = \<lparr>rs_flags =
                     (if p_treeflag (h p) AND P_TREE_REAPER = 0 then 0 else REAPER_STATUS_OWNED)
                       OR (if reap = initproc env then REAPER_STATUS_REALINIT else 0),
                   rs_children = 0, rs_descendants = 0,
                   rs_reaper = p_pid (h reap), rs_pid = 0\<rparr>
         in if p_reaplist (h reap) \<noteq> None then
              (case p_children (h reap) of
                 None \<Rightarrow> Some Panic
               | Some c \<Rightarrow> map_option (\<lambda>rs'. Ret (0, rs'))
                   (reap_status_loop env h reap (p_reaplist (h reap)) (rs\<lparr>rs_pid := p_pid (h c)\<rparr>)))
            else if p_children (h reap) \<noteq> None then Some Panic
            else Some (Ret (0, rs\<lparr>rs_pid := - 1\<rparr>))))"

partial_function (option) reaplist_count :: "heap \<Rightarrow> handle option \<Rightarrow> 32 word \<Rightarrow> 32 word option" where
  "reaplist_count h p2 n =
    (case p2 of None \<Rightarrow> Some n | Some q \<Rightarrow> reaplist_count h (p_reapsibling (h q)) (n + 1))"

text \<open>The slot that the second walk of \<open>reap_getpids\<close> fills for the process \<open>q\<close>.\<close>

definition pidinfo_of :: "kenv \<Rightarrow> heap \<Rightarrow> handle \<Rightarrow> handle \<Rightarrow> procctl_reaper_pidinfo" where
  "pidinfo_of env h reap q =
    \<lparr>pi_pid = p_pid (h q), pi_subtree = p_reapsubtree (h q),
     pi_flags = (if proc_realparent env h q = Some reap
                 then REAPER_PIDINFO_VALID OR REAPER_PIDINFO_CHILD
                 else REAPER_PIDINFO_VALID)\<rparr>"

text \<open>
  The second walk of \<open>reap_getpids\<close>: \<open>pi\<close> holds the \<open>i\<close> slots of the buffer written so far.
\<close>

partial_function (option) getpids_fill ::
  "kenv \<Rightarrow> heap \<Rightarrow> handle \<Rightarrow> 32 word \<Rightarrow> handle option \<Rightarrow> 32 word \<Rightarrow> procctl_reaper_pidinfo list
    \<Rightarrow> (32 word \<times> procctl_reaper_pidinfo list) option" where
  "getpids_fill env h reap n p2 i pi =
    (case p2 of
       None \<Rightarrow> Some (i, pi)
     | Some q \<Rightarrow>
        if i = n then Some (i, pi)
        else getpids_fill env h reap n (p_reapsibling (h q)) (i + 1)
          (pi @ [pidinfo_of env h reap q]))"

text \<open>
  \<open>reap_getpids\<close> counts under the lock, drops it to allocate, fills the buffer under the
  lock again and drops it once more for \<open>copyout\<close>; \<open>copyout\<close> stores the first \<open>i\<close> slots.
\<close>

definition reap_getpids ::
  "kenv \<Rightarrow> kstate \<Rightarrow> handle \<Rightarrow> procctl_reaper_pids \<Rightarrow> (int \<times> kstate) outcome option" where
  "reap_getpids env s p rp =
    (case reaper_of (procs s) p of
       None \<Rightarrow> Some Panic
     | Some reap \<Rightarrow>
        Option.bind (reaplist_count (procs s) (p_reaplist (procs s reap)) 0) (\<lambda>n0.
          let h2 = relock env (procs s);
              n = (if rp_count rp < n0 then rp_count rp else n0)
          in Option.bind (getpids_fill env h2 reap n (p_reaplist (h2 reap)) 0 []) (\<lambda>(i, pi).
            let error = copyout env (rp_pids rp);
                h3 = relock env h2
            in Some (Ret (error,
                 s\<lparr>procs := h3,
                   copied_out := (if error = 0
                     then copied_out s @ [(rp_pids rp, DPidinfo (take (unat i) pi))]
                     else copied_out s)\<rparr>)))))"

subsection \<open>Signalling the processes of a reaper\<close>

partial_function (option) reap_kill_loop ::
  "kenv \<Rightarrow> thread \<Rightarrow> ksiginfo \<Rightarrow> handle option \<Rightarrow> int \<Rightarrow> procctl_reaper_kill \<Rightarrow> kstate
    \<Rightarrow> (int \<times> procctl_reaper_kill \<times> kstate) option" where
  "reap_kill_loop env td ksi p2 error rk s =
    (case p2 of
       None \<Rightarrow> Some (error, rk, s)
     | Some q \<Rightarrow>
        (let nxt = (if rk_flags rk AND REAPER_KILL_CHILDREN \<noteq> 0
                    then p_sibling (procs s q) else p_reapsibling (procs s q))
         in if rk_flags rk AND REAPER_KILL_SUBTREE \<noteq> 0 \<and> p_reapsubtree (procs s q) \<noteq> rk_subtree rk
            then reap_kill_loop env td ksi nxt error rk s
            else if p_cansignal env td q (rk_sig rk) = 0
            then reap_kill_loop env td ksi nxt 0 (rk\<lparr>rk_killed := rk_killed rk + 1\<rparr>)
                   (s\<lparr>delivered := delivered s @ [(q, ksi)]\<rparr>)
            else if error = ESRCH
            then reap_kill_loop env td ksi nxt (p_cansignal env td q (rk_sig rk))
                   (rk\<lparr>rk_fpid := p_pid (procs s q)\<rparr>) s
            else reap_kill_loop env td ksi nxt error rk s))"

definition reap_kill ::
  "kenv \<Rightarrow> thread \<Rightarrow> kstate \<Rightarrow> handle \<Rightarrow> procctl_reaper_kill
    \<Rightarrow> (int \<times> procctl_reaper_kill \<times> kstate) outcome option" where
  "reap_kill env td s p rk =
    (if td_capmode td then Some (Ret (ECAPMODE, rk, s))
     else if rk_sig rk \<le> 0 \<or> rk_sig rk > SIG_MAXSIG then Some (Ret (EINVAL, rk, s))
     else if rk_flags rk AND NOT REAPER_KILL_CHILDREN \<noteq> 0 then Some (Ret (EINVAL, rk, s))
     else case reaper_of (procs s) p of
       None \<Rightarrow> Some Panic
     | Some reap \<Rightarrow>
        map_option Ret
          (reap_kill_loop env td
            \<lparr>ksi_signo = rk_sig rk, ksi_code = SI_USER,
             ksi_pid = p_pid (procs s (td_proc td)), ksi_uid = td_ruid td\<rparr>
            (if rk_flags rk AND REAPER_KILL_CHILDREN \<noteq> 0
             then p_children (procs s reap) else p_reaplist (procs s reap))
            ESRCH (rk\<lparr>rk_killed := 0, rk_fpid := - 1\<rparr>) s))"

subsection \<open>The dispatcher\<close>

text \<open>
  \<open>kern_procctl_single\<close> reads \<open>data\<close> as the object the command names; \<open>sys_procctl\<close>
  always passes that object, and a call with another one is outside the model (\<open>Panic\<close>).
\<close>

definition with_procs :: "kstate \<Rightarrow> pdata \<Rightarrow> (int \<times> heap) outcome \<Rightarrow> (int \<times> kstate \<times> pdata) outcome" where
  "with_procs s data r =
    (case r of Panic \<Rightarrow> Panic | Ret (error, h') \<Rightarrow> Ret (error, s\<lparr>procs := h'\<rparr>, data))"

definition kern_procctl_single ::
  "kenv \<Rightarrow> thread \<Rightarrow> kstate \<Rightarrow> handle \<Rightarrow> int \<Rightarrow> pdata \<Rightarrow> (int \<times> kstate \<times> pdata) outcome option" where
  "kern_procctl_single env td s p com data =
    (if com = PROC_SPROTECT then
       (case data of
          DInt flags \<Rightarrow> map_option (with_procs s data) (protect_set env td (procs s) p flags)
        | _ \<Rightarrow> Some Panic)
     else if com = PROC_REAP_ACQUIRE then
       Some (with_procs s data (Ret (reap_acquire td (procs s) p)))
     else if com = PROC_REAP_RELEASE then
       Some (with_procs s data (Ret (reap_release env td (procs s) p)))
     else if com = PROC_REAP_STATUS then
       (case data of
          DStatus rs0 \<Rightarrow> map_option
            (\<lambda>r. case r of Panic \<Rightarrow> Panic | Ret (error, rs) \<Rightarrow> Ret (error, s, DStatus rs))
            (reap_status env (procs s) p)
        | _ \<Rightarrow> Some Panic)
     else if com = PROC_REAP_GETPIDS then
       (case data of
          DPids rp \<Rightarrow> map_option
            (\<lambda>r. case r of Panic \<Rightarrow> Panic | Ret (error, s') \<Rightarrow> Ret (error, s', data))
            (reap_getpids env s p rp)
        | _ \<Rightarrow> Some Panic)
     else if com = PROC_REAP_KILL then
       (case data of
          DKill rk \<Rightarrow> map_option
            (\<lambda>r. case r of Panic \<Rightarrow> Panic | Ret (error, rk', s') \<Rightarrow> Ret (error, s', DKill rk'))
            (reap_kill env td s p rk)
        | _ \<Rightarrow> Some Panic)
     else if com = PROC_TRACE_CTL then
       (case data of
          DInt state \<Rightarrow> Some (with_procs s data (trace_ctl td (procs s) p state))
        | _ \<Rightarrow> Some Panic)
     else if com = PROC_TRACE_STATUS then
       (case data of
          DInt d0 \<Rightarrow>
            Some (case trace_status (procs s) p of
                    Panic \<Rightarrow> Panic
                  | Ret (error, d) \<Rightarrow> Ret (error, s, DInt d))
        | _ \<Rightarrow> Some Panic)
     else Some (Ret (EINVAL, s, data)))"

text \<open>
  The \<open>LIST_FOREACH\<close> over the members of a process group: \<open>ok\<close> and \<open>first_error\<close> are the
  two accumulators of the source.
\<close>

partial_function (option) pgrp_loop ::
  "kenv \<Rightarrow> thread \<Rightarrow> int \<Rightarrow> handle option \<Rightarrow> int \<Rightarrow> int \<Rightarrow> kstate \<Rightarrow> pdata
    \<Rightarrow> (int \<times> int \<times> kstate \<times> pdata) outcome option" where
  "pgrp_loop env td com p ok first_error s data =
    (case p of
       None \<Rightarrow> Some (Ret (ok, first_error, s, data))
     | Some q \<Rightarrow>
        if p_state (procs s q) = PRS_NEW \<or> p_cansee env td q \<noteq> 0
        then pgrp_loop env td com (p_pglist (procs s q)) ok first_error s data
        else Option.bind (kern_procctl_single env td s q com data) (\<lambda>r.
          case r of
            Panic \<Rightarrow> Some Panic
          | Ret (error, s', data') \<Rightarrow>
              pgrp_loop env td com (p_pglist (procs s' q))
                (if error = 0 then 1 else ok)
                (if error \<noteq> 0 \<and> first_error = 0 then error else first_error)
                s' data'))"

definition kern_procctl ::
  "kenv \<Rightarrow> thread \<Rightarrow> kstate \<Rightarrow> int \<Rightarrow> int \<Rightarrow> int \<Rightarrow> pdata \<Rightarrow> (int \<times> kstate \<times> pdata) outcome option" where
  "kern_procctl env td s idtype ident com data =
    (if com \<in> {PROC_REAP_ACQUIRE, PROC_REAP_RELEASE, PROC_REAP_STATUS, PROC_REAP_GETPIDS,
                PROC_REAP_KILL, PROC_TRACE_STATUS} \<and> idtype \<noteq> P_PID
     then Some (Ret (EINVAL, s, data))
     else if com \<notin> {PROC_SPROTECT, PROC_REAP_STATUS, PROC_REAP_GETPIDS, PROC_REAP_KILL,
                     PROC_TRACE_CTL, PROC_REAP_ACQUIRE, PROC_REAP_RELEASE, PROC_TRACE_STATUS}
     then Some (Ret (EINVAL, s, data))
     else if idtype = P_PID then
       (case pfind env ident of
          None \<Rightarrow> Some (Ret (ESRCH, s, data))
        | Some p \<Rightarrow>
           if p_cansee env td p \<noteq> 0 then Some (Ret (p_cansee env td p, s, data))
           else kern_procctl_single env td s p com data)
     else if idtype = P_PGID then
       (case pgfind env ident of
          None \<Rightarrow> Some (Ret (ESRCH, s, data))
        | Some pg \<Rightarrow>
           Option.bind (pgrp_loop env td com (pg_members pg) 0 0 s data) (\<lambda>r.
             case r of
               Panic \<Rightarrow> Some Panic
             | Ret (ok, first_error, s', data') \<Rightarrow>
                 Some (Ret (if ok \<noteq> 0 then 0
                            else if first_error \<noteq> 0 then first_error
                            else ESRCH, s', data'))))
     else Some (Ret (EINVAL, s, data)))"

text \<open>
  The system call. The union \<open>x\<close> and the local \<open>flags\<close> are not initialised before
  \<open>kern_procctl\<close> writes them; they start as zero here, and they are copied out only after
  they were written.
\<close>

definition copyout_to :: "kenv \<Rightarrow> kstate \<Rightarrow> uaddr option \<Rightarrow> pdata \<Rightarrow> int \<times> kstate" where
  "copyout_to env s a d =
    (copyout env a,
     if copyout env a = 0 then s\<lparr>copied_out := copied_out s @ [(a, d)]\<rparr> else s)"

definition sys_procctl ::
  "kenv \<Rightarrow> thread \<Rightarrow> kstate \<Rightarrow> procctl_args \<Rightarrow> (int \<times> kstate) outcome option" where
  "sys_procctl env td s uap =
    (let com = uap_com uap;
         prep =
           (if com = PROC_SPROTECT \<or> com = PROC_TRACE_CTL then
              (if fst (copyin_int env (uap_data uap)) \<noteq> 0
               then Inl (fst (copyin_int env (uap_data uap)))
               else Inr (DInt (snd (copyin_int env (uap_data uap)))))
            else if com = PROC_REAP_ACQUIRE \<or> com = PROC_REAP_RELEASE then
              (if uap_data uap \<noteq> None then Inl EINVAL else Inr DNull)
            else if com = PROC_REAP_STATUS then
              Inr (DStatus \<lparr>rs_flags = 0, rs_children = 0, rs_descendants = 0,
                           rs_reaper = 0, rs_pid = 0\<rparr>)
            else if com = PROC_REAP_GETPIDS then
              (if fst (copyin_rp env (uap_data uap)) \<noteq> 0
               then Inl (fst (copyin_rp env (uap_data uap)))
               else Inr (DPids (snd (copyin_rp env (uap_data uap)))))
            else if com = PROC_REAP_KILL then
              (if fst (copyin_rk env (uap_data uap)) \<noteq> 0
               then Inl (fst (copyin_rk env (uap_data uap)))
               else Inr (DKill (snd (copyin_rk env (uap_data uap)))))
            else if com = PROC_TRACE_STATUS then Inr (DInt 0)
            else Inl EINVAL)
     in case prep of
          Inl error \<Rightarrow> Some (Ret (error, s))
        | Inr data \<Rightarrow>
           Option.bind (kern_procctl env td s (uap_idtype uap) (uap_id uap) com data) (\<lambda>r.
             case r of
               Panic \<Rightarrow> Some Panic
             | Ret (error, s', data') \<Rightarrow>
                 if com = PROC_REAP_STATUS \<or> com = PROC_TRACE_STATUS then
                   (if error = 0 then Some (Ret (copyout_to env s' (uap_data uap) data'))
                    else Some (Ret (error, s')))
                 else if com = PROC_REAP_KILL then
                   Some (Ret (if error = 0 then fst (copyout_to env s' (uap_data uap) data')
                              else error,
                              snd (copyout_to env s' (uap_data uap) data')))
                 else Some (Ret (error, s'))))"


subsection \<open>Concrete scenarios\<close>

text \<open>
  A process with no flags and no links, an environment in which every check passes, and the
  thread of a given process. The concrete inputs below are built from them.
\<close>

definition plain_proc :: proc where
  "plain_proc = \<lparr>p_pid = 0, p_state = PRS_NORMAL, p_flag = 0, p_flag2 = 0, p_treeflag = 0,
     p_traceflag = 0, p_pptr = None, p_children = None, p_sibling = None, p_reaper = None,
     p_reaplist = None, p_reapsibling = None, p_reapsubtree = 0, p_pglist = None\<rparr>"

definition permissive_env :: kenv where
  "permissive_env = \<lparr>initproc = 1,
     p_cansched = (\<lambda>td p. 0), p_cansee = (\<lambda>td p. 0), p_cansignal = (\<lambda>td p sig. 0),
     priv_check = (\<lambda>td. 0),
     proc_realparent = (\<lambda>h p. p_pptr (h p)),
     reaper_abandon_children = (\<lambda>h p exiting. h),
     pfind = (\<lambda>i. None), pgfind = (\<lambda>i. None),
     copyin_int = (\<lambda>a. (0, 0)),
     copyin_rp = (\<lambda>a. (0, \<lparr>rp_count = 0, rp_pids = None\<rparr>)),
     copyin_rk = (\<lambda>a. (0, \<lparr>rk_sig = 0, rk_flags = 0, rk_subtree = 0, rk_killed = 0,
                              rk_fpid = 0\<rparr>)),
     copyout = (\<lambda>a. 0),
     relock = (\<lambda>h. h)\<rparr>"

definition thread_of :: "handle \<Rightarrow> thread" where
  "thread_of p = \<lparr>td_proc = p, td_capmode = False, td_ruid = 0\<rparr>"

definition empty_kstate :: "heap \<Rightarrow> kstate" where
  "empty_kstate h = \<lparr>procs = h, delivered = [], copied_out = []\<rparr>"

text \<open>The invariant of the two no-trace flags: no-trace-on-exec only together with no-trace.\<close>

definition notrace_inv :: "proc \<Rightarrow> bool" where
  "notrace_inv pr = (p_flag2 pr AND P2_NOTRACE_EXEC \<noteq> 0 \<longrightarrow> p_flag2 pr AND P2_NOTRACE \<noteq> 0)"

definition idle_heap :: heap where
  "idle_heap = (\<lambda>p. plain_proc)"

subsection \<open>The lists of the process table\<close>

text \<open>
  \<open>chain nxt h first xs\<close>: following the link \<open>nxt\<close> from \<open>first\<close> passes through exactly
  the processes \<open>xs\<close>, in this order, and then reaches NULL. This is what a well-formed
  queue(3) list is; a \<open>LIST_FOREACH\<close> over links that form a cycle does not end.
\<close>

fun chain :: "(proc \<Rightarrow> handle option) \<Rightarrow> heap \<Rightarrow> handle option \<Rightarrow> handle list \<Rightarrow> bool" where
  "chain nxt h first [] = (first = None)"
| "chain nxt h first (x # xs) = (first = Some x \<and> chain nxt h (nxt (h x)) xs)"

text \<open>The list \<open>reap_kill\<close> walks and the link it follows, both chosen by \<open>rk_flags\<close>.\<close>

definition kill_first :: "procctl_reaper_kill \<Rightarrow> heap \<Rightarrow> handle \<Rightarrow> handle option" where
  "kill_first rk h reap =
    (if rk_flags rk AND REAPER_KILL_CHILDREN \<noteq> 0 then p_children (h reap) else p_reaplist (h reap))"

definition kill_next :: "procctl_reaper_kill \<Rightarrow> proc \<Rightarrow> handle option" where
  "kill_next rk pr =
    (if rk_flags rk AND REAPER_KILL_CHILDREN \<noteq> 0 then p_sibling pr else p_reapsibling pr)"

text \<open>The members of the walked list that pass the subtree filter: the candidates.\<close>

definition kill_matches :: "procctl_reaper_kill \<Rightarrow> heap \<Rightarrow> handle \<Rightarrow> bool" where
  "kill_matches rk h q =
    (rk_flags rk AND REAPER_KILL_SUBTREE = 0 \<or> p_reapsubtree (h q) = rk_subtree rk)"

definition kill_candidates :: "procctl_reaper_kill \<Rightarrow> heap \<Rightarrow> handle list \<Rightarrow> handle list" where
  "kill_candidates rk h xs = filter (kill_matches rk h) xs"

definition kill_permitted :: "kenv \<Rightarrow> thread \<Rightarrow> procctl_reaper_kill \<Rightarrow> handle list \<Rightarrow> handle list" where
  "kill_permitted env td rk qs = filter (\<lambda>q. p_cansignal env td q (rk_sig rk) = 0) qs"

text \<open>The first error of a list that is not \<open>ESRCH\<close>, and \<open>ESRCH\<close> when there is none.\<close>

definition first_failure :: "int list \<Rightarrow> int" where
  "first_failure es = (case filter (\<lambda>e. e \<noteq> ESRCH) es of [] \<Rightarrow> ESRCH | e # _ \<Rightarrow> e)"

text \<open>The body of the loop of \<open>reap_kill\<close>, run over the processes of a list.\<close>

fun kill_walk ::
  "kenv \<Rightarrow> thread \<Rightarrow> ksiginfo \<Rightarrow> handle list \<Rightarrow> int \<Rightarrow> procctl_reaper_kill \<Rightarrow> kstate
    \<Rightarrow> int \<times> procctl_reaper_kill \<times> kstate" where
  "kill_walk env td ksi [] error rk s = (error, rk, s)"
| "kill_walk env td ksi (q # qs) error rk s =
    (if rk_flags rk AND REAPER_KILL_SUBTREE \<noteq> 0 \<and> p_reapsubtree (procs s q) \<noteq> rk_subtree rk
     then kill_walk env td ksi qs error rk s
     else if p_cansignal env td q (rk_sig rk) = 0
     then kill_walk env td ksi qs 0 (rk\<lparr>rk_killed := rk_killed rk + 1\<rparr>)
            (s\<lparr>delivered := delivered s @ [(q, ksi)]\<rparr>)
     else if error = ESRCH
     then kill_walk env td ksi qs (p_cansignal env td q (rk_sig rk))
            (rk\<lparr>rk_fpid := p_pid (procs s q)\<rparr>) s
     else kill_walk env td ksi qs error rk s)"

subsection \<open>Concrete process tables\<close>

text \<open>
  A reaper, process 1, calling for itself: with the three children 2, 3 and 4 (pids 102,
  103 and 104), and with the two reaped processes 2 and 3.
\<close>

definition three_children_heap :: heap where
  "three_children_heap = idle_heap
    (1 := plain_proc\<lparr>p_pid := 101, p_treeflag := P_TREE_REAPER, p_children := Some 2,
                     p_reaplist := Some 2\<rparr>,
     2 := plain_proc\<lparr>p_pid := 102, p_pptr := Some 1, p_reaper := Some 1, p_sibling := Some 3,
                     p_reapsibling := Some 3\<rparr>,
     3 := plain_proc\<lparr>p_pid := 103, p_pptr := Some 1, p_reaper := Some 1, p_sibling := Some 4,
                     p_reapsibling := Some 4\<rparr>,
     4 := plain_proc\<lparr>p_pid := 104, p_pptr := Some 1, p_reaper := Some 1\<rparr>)"

definition two_reaped_heap :: heap where
  "two_reaped_heap = idle_heap
    (1 := plain_proc\<lparr>p_pid := 101, p_treeflag := P_TREE_REAPER, p_children := Some 2,
                     p_reaplist := Some 2\<rparr>,
     2 := plain_proc\<lparr>p_pid := 102, p_pptr := Some 1, p_reaper := Some 1, p_sibling := Some 3,
                     p_reapsibling := Some 3\<rparr>,
     3 := plain_proc\<lparr>p_pid := 103, p_pptr := Some 1, p_reaper := Some 1\<rparr>)"

text \<open>The caller may signal every process but \<open>d\<close>.\<close>

definition deny_env :: "handle \<Rightarrow> kenv" where
  "deny_env d = permissive_env\<lparr>p_cansignal := (\<lambda>td p sig. if p = d then EPERM else 0)\<rparr>"

text \<open>Process 2 is not visible to the caller and process 3 may not be signalled by it.\<close>

definition jail_env :: kenv where
  "jail_env = permissive_env\<lparr>p_cansignal :=
     (\<lambda>td p sig. if p = 2 then ESRCH else if p = 3 then EPERM else 0)\<rparr>"

definition kill_request :: "32 word \<Rightarrow> procctl_reaper_kill" where
  "kill_request flags = \<lparr>rk_sig = 15, rk_flags = flags, rk_subtree = 7, rk_killed = 0,
     rk_fpid = 0\<rparr>"

definition user_ksi :: ksiginfo where
  "user_ksi = \<lparr>ksi_signo = 15, ksi_code = SI_USER, ksi_pid = 101, ksi_uid = 0\<rparr>"

text \<open>Process 3 with both no-trace flags set, and after it gave up no-trace-on-exec.\<close>

definition notrace_exec_heap :: heap where
  "notrace_exec_heap = idle_heap(3 := plain_proc\<lparr>p_flag2 := P2_NOTRACE OR P2_NOTRACE_EXEC\<rparr>)"

definition notrace_heap :: heap where
  "notrace_heap = idle_heap(3 := plain_proc\<lparr>p_flag2 := P2_NOTRACE\<rparr>)"

text \<open>Process 3 under a debugger, and process 7 as a reaper.\<close>

definition traced_heap :: heap where
  "traced_heap = idle_heap(3 := plain_proc\<lparr>p_flag := P_TRACED\<rparr>)"

definition reaper_heap :: "handle \<Rightarrow> heap" where
  "reaper_heap p = idle_heap(p := plain_proc\<lparr>p_treeflag := P_TREE_REAPER\<rparr>)"

text \<open>A \<open>PROC_REAP_ACQUIRE\<close> on process 5 that passes a payload pointer.\<close>

definition acquire_with_payload :: procctl_args where
  "acquire_with_payload = \<lparr>uap_idtype = P_PID, uap_id = 5, uap_com = PROC_REAP_ACQUIRE,
     uap_data = Some 4096\<rparr>"

text \<open>A \<open>PROC_REAP_GETPIDS\<close> request with room for two entries.\<close>

definition pids_request :: procctl_reaper_pids where
  "pids_request = \<lparr>rp_count = 2, rp_pids = Some 8192\<rparr>"

subsection \<open>The process tree\<close>

text \<open>
  The shape of a subtree of the process tree: a process and the subtrees of its children,
  in the order of its \<open>p_children\<close> list. \<open>pnodes\<close> lists the processes in pre-order.
\<close>

datatype ptree = PNode handle "ptree list"

fun proot :: "ptree \<Rightarrow> handle" where
  "proot (PNode p cs) = p"

fun pchildren :: "ptree \<Rightarrow> ptree list" where
  "pchildren (PNode p cs) = cs"

fun pnodes :: "ptree \<Rightarrow> handle list" and forest_nodes :: "ptree list \<Rightarrow> handle list" where
  "pnodes (PNode p cs) = p # forest_nodes cs"
| "forest_nodes [] = []"
| "forest_nodes (t # ts) = pnodes t @ forest_nodes ts"

text \<open>
  \<open>is_subtree h t\<close>: in the process table \<open>h\<close> the descendants of the root of \<open>t\<close> are
  linked as \<open>t\<close> says. \<open>is_forest h par first ts\<close>: the list of children of \<open>par\<close> that
  starts at \<open>first\<close> consists of the roots of \<open>ts\<close>, each with \<open>par\<close> as its \<open>p_pptr\<close> and
  with its own subtree, and ends with NULL.
\<close>

fun is_subtree :: "heap \<Rightarrow> ptree \<Rightarrow> bool"
  and is_forest :: "heap \<Rightarrow> handle \<Rightarrow> handle option \<Rightarrow> ptree list \<Rightarrow> bool" where
  "is_subtree h (PNode p cs) = is_forest h p (p_children (h p)) cs"
| "is_forest h par first [] = (first = None)"
| "is_forest h par first (t # ts) =
    (first = Some (proot t) \<and> p_pptr (h (proot t)) = Some par \<and> is_subtree h t
     \<and> is_forest h par (p_sibling (h (proot t))) ts)"

text \<open>
  A process that \<open>protect_setchild\<close> does not skip, and \<open>protect_setchild\<close> applied to the
  processes of a list, one after the other, with the results or-ed as in
  \<open>protect_setchildren\<close>.
\<close>

definition protectable :: "kenv \<Rightarrow> thread \<Rightarrow> heap \<Rightarrow> handle \<Rightarrow> bool" where
  "protectable env td h q = (p_flag (h q) AND P_SYSTEM = 0 \<and> p_cansched env td q = 0)"

fun visit_all :: "kenv \<Rightarrow> thread \<Rightarrow> 32 word \<Rightarrow> handle list \<Rightarrow> 32 word \<Rightarrow> heap \<Rightarrow> 32 word \<times> heap" where
  "visit_all env td flags [] ret h = (ret, h)"
| "visit_all env td flags (q # qs) ret h =
    visit_all env td flags qs (ret OR fst (protect_setchild env td h q flags))
      (snd (protect_setchild env td h q flags))"

text \<open>
  The inner loop of \<open>protect_setchildren\<close> entered at \<open>p\<close> with the results so far, and
  the rest of the walk from there.
\<close>

definition setchildren_resume ::
  "kenv \<Rightarrow> thread \<Rightarrow> 32 word \<Rightarrow> handle \<Rightarrow> handle \<Rightarrow> 32 word \<Rightarrow> heap
    \<Rightarrow> (32 word \<times> heap) outcome option" where
  "setchildren_resume env td flags top' p ret h =
    Option.bind (setchildren_ascend h top' p) (\<lambda>a.
      case a of
        Panic \<Rightarrow> Some Panic
      | Ret None \<Rightarrow> Some (Ret (ret, h))
      | Ret (Some q) \<Rightarrow> setchildren_loop env td flags top' q ret h)"

text \<open>The links of a process that the walk of \<open>protect_setchildren\<close> follows.\<close>

definition tree_links :: "proc \<Rightarrow> handle option \<times> handle option \<times> handle option" where
  "tree_links pr = (p_pptr pr, p_children pr, p_sibling pr)"

text \<open>
  What \<open>protect_setchild\<close> makes of the record of the process \<open>q\<close>, and the rest of the
  walk after the processes \<open>qs\<close> have been visited.
\<close>

definition set_protected :: "kenv \<Rightarrow> thread \<Rightarrow> 32 word \<Rightarrow> handle \<Rightarrow> proc \<Rightarrow> proc" where
  "set_protected env td flags q pr =
    (if p_flag pr AND P_SYSTEM \<noteq> 0 \<or> p_cansched env td q \<noteq> 0 then pr
     else if flags AND PPROT_SET \<noteq> 0 then
       pr\<lparr>p_flag := p_flag pr OR P_PROTECTED,
          p_flag2 := (if flags AND PPROT_INHERIT \<noteq> 0 then p_flag2 pr OR P2_INHERIT_PROTECTED
                      else p_flag2 pr)\<rparr>
     else pr\<lparr>p_flag := p_flag pr AND NOT P_PROTECTED,
             p_flag2 := p_flag2 pr AND NOT P2_INHERIT_PROTECTED\<rparr>)"

definition resume_after ::
  "kenv \<Rightarrow> thread \<Rightarrow> 32 word \<Rightarrow> handle \<Rightarrow> handle list \<Rightarrow> handle \<Rightarrow> 32 word \<Rightarrow> heap
    \<Rightarrow> (32 word \<times> heap) outcome option" where
  "resume_after env td flags top' qs p ret h =
    setchildren_resume env td flags top' p (fst (visit_all env td flags qs ret h))
      (snd (visit_all env td flags qs ret h))"

text \<open>
  Process 10 with the children 20 and 21 and the grandchild 30 under 20; process 21 is a
  system process. Process 10 has a parent and a sibling of its own, outside the subtree.
\<close>

definition family_heap :: heap where
  "family_heap = idle_heap
    (10 := plain_proc\<lparr>p_pid := 110, p_pptr := Some 1, p_sibling := Some 11,
                      p_children := Some 20\<rparr>,
     20 := plain_proc\<lparr>p_pid := 120, p_pptr := Some 10, p_sibling := Some 21,
                      p_children := Some 30\<rparr>,
     21 := plain_proc\<lparr>p_pid := 121, p_flag := P_SYSTEM, p_pptr := Some 10\<rparr>,
     30 := plain_proc\<lparr>p_pid := 130, p_pptr := Some 20\<rparr>)"

definition family_tree :: ptree where
  "family_tree = PNode 10 [PNode 20 [PNode 30 []], PNode 21 []]"

subsection \<open>Dispatch to a process group\<close>

text \<open>
  A member of the group that the dispatcher passes over: not fully created yet, or not
  visible to the caller.
\<close>

definition pg_skipped :: "kenv \<Rightarrow> thread \<Rightarrow> heap \<Rightarrow> handle \<Rightarrow> bool" where
  "pg_skipped env td h q = (p_state (h q) = PRS_NEW \<or> p_cansee env td q \<noteq> 0)"

text \<open>
  The group policy in the words of the spec: the operation is applied to the members that
  are not passed over, one after the other; \<open>pg_results\<close> collects what each application
  returned. The aggregate is success when any application succeeded, else the first error,
  else \<open>ESRCH\<close> when the operation was applied to no member.
\<close>

fun pg_results ::
  "kenv \<Rightarrow> thread \<Rightarrow> int \<Rightarrow> handle list \<Rightarrow> kstate \<Rightarrow> pdata
    \<Rightarrow> (int list \<times> kstate \<times> pdata) outcome option" where
  "pg_results env td com [] s data = Some (Ret ([], s, data))"
| "pg_results env td com (q # qs) s data =
    (if pg_skipped env td (procs s) q then pg_results env td com qs s data
     else case kern_procctl_single env td s q com data of
       None \<Rightarrow> None
     | Some Panic \<Rightarrow> Some Panic
     | Some (Ret (error, s', data')) \<Rightarrow>
        (case pg_results env td com qs s' data' of
           None \<Rightarrow> None
         | Some Panic \<Rightarrow> Some Panic
         | Some (Ret (es, r)) \<Rightarrow> Some (Ret (error # es, r))))"

definition pg_aggregate :: "int list \<Rightarrow> int" where
  "pg_aggregate es = (if 0 \<in> set es then 0 else case es of [] \<Rightarrow> ESRCH | e # _ \<Rightarrow> e)"

text \<open>
  A process whose descendants form a well-formed tree, and the fields of a process that
  the walks over the process table read.
\<close>

definition has_subtree :: "heap \<Rightarrow> handle \<Rightarrow> bool" where
  "has_subtree h q = (\<exists>t. proot t = q \<and> is_subtree h t \<and> distinct (pnodes t))"

definition walk_links ::
  "proc \<Rightarrow> (handle option \<times> handle option \<times> handle option) \<times> handle option \<times> proc_state" where
  "walk_links pr = (tree_links pr, p_pglist pr, p_state pr)"

text \<open>
  A group of four, 41 to 44, and a caller outside of it: 41 is not visible to the caller,
  42 has given up tracing for itself and after exec, 43 and 44 have no flags.
\<close>

definition group_heap :: heap where
  "group_heap = idle_heap
    (41 := plain_proc\<lparr>p_pid := 141, p_pglist := Some 42\<rparr>,
     42 := plain_proc\<lparr>p_pid := 142, p_flag2 := P2_NOTRACE OR P2_NOTRACE_EXEC, p_pglist := Some 43\<rparr>,
     43 := plain_proc\<lparr>p_pid := 143, p_pglist := Some 44\<rparr>,
     44 := plain_proc\<lparr>p_pid := 144\<rparr>)"

definition group_heap_after :: heap where
  "group_heap_after = group_heap
    (43 := (group_heap 43)\<lparr>p_flag2 := P2_NOTRACE\<rparr>,
     44 := (group_heap 44)\<lparr>p_flag2 := P2_NOTRACE\<rparr>)"

definition group_env :: kenv where
  "group_env = permissive_env
    \<lparr>p_cansee := (\<lambda>td p. if p = 41 then ESRCH else 0),
     pgfind := (\<lambda>i. if i = 7 then Some \<lparr>pg_members = Some 41\<rparr> else None)\<rparr>"

text \<open>The first nonzero result of a list, and 0 when there is none.\<close>

definition pg_first_error :: "int list \<Rightarrow> int" where
  "pg_first_error es = (case filter (\<lambda>e. e \<noteq> 0) es of [] \<Rightarrow> 0 | e # _ \<Rightarrow> e)"

section \<open>Properties\<close>

subsection \<open>The constants, unfolded together\<close>

lemmas errno_defs = EPERM_def ESRCH_def EBUSY_def EINVAL_def ECAPMODE_def

lemmas pflag_defs = P_SYSTEM_def P_TRACED_def P_PROTECTED_def P2_INHERIT_PROTECTED_def
  P2_NOTRACE_def P2_NOTRACE_EXEC_def P_TREE_REAPER_def

lemmas pprot_defs = PPROT_SET_def PPROT_CLEAR_def PPROT_DESCEND_def PPROT_INHERIT_def
  PPROT_OP_def PPROT_FLAGS_def

lemmas reaper_defs = REAPER_STATUS_OWNED_def REAPER_STATUS_REALINIT_def
  REAPER_PIDINFO_VALID_def REAPER_PIDINFO_CHILD_def REAPER_KILL_CHILDREN_def
  REAPER_KILL_SUBTREE_def

lemmas trace_state_defs = PROC_TRACE_CTL_ENABLE_def PROC_TRACE_CTL_DISABLE_def
  PROC_TRACE_CTL_DISABLE_EXEC_def

lemmas com_defs = PROC_SPROTECT_def PROC_REAP_ACQUIRE_def PROC_REAP_RELEASE_def
  PROC_REAP_STATUS_def PROC_REAP_GETPIDS_def PROC_REAP_KILL_def PROC_TRACE_CTL_def
  PROC_TRACE_STATUS_def P_PID_def P_PGID_def

subsection \<open>Bits of the flag words\<close>

lemma kill_subtree_bit_not_children:
  "f AND REAPER_KILL_SUBTREE \<noteq> 0 \<Longrightarrow> f AND NOT REAPER_KILL_CHILDREN \<noteq> 0"
proof
  assume a: "f AND REAPER_KILL_SUBTREE \<noteq> 0" and b: "f AND NOT REAPER_KILL_CHILDREN = 0"
  have "f AND REAPER_KILL_SUBTREE = (f AND NOT REAPER_KILL_CHILDREN) AND REAPER_KILL_SUBTREE"
    by (simp add: and.assoc REAPER_KILL_SUBTREE_def REAPER_KILL_CHILDREN_def)
  with a b show False by simp
qed

lemma kill_children_only_no_subtree:
  "f AND NOT REAPER_KILL_CHILDREN = 0 \<Longrightarrow> f AND REAPER_KILL_SUBTREE = 0"
  using kill_subtree_bit_not_children by blast

subsection \<open>The loop of \<open>reap_kill\<close> over a well-formed list\<close>

lemma kill_next_update [simp]:
  "kill_next (rk\<lparr>rk_fpid := v\<rparr>) = kill_next rk"
  "kill_next (rk\<lparr>rk_killed := w\<rparr>) = kill_next rk"
  by (simp_all add: fun_eq_iff kill_next_def)

lemma kill_matches_update [simp]:
  "kill_matches (rk\<lparr>rk_fpid := v\<rparr>) = kill_matches rk"
  "kill_matches (rk\<lparr>rk_killed := w\<rparr>) = kill_matches rk"
  by (simp_all add: fun_eq_iff kill_matches_def)

lemma kill_sets_update [simp]:
  "kill_candidates (rk\<lparr>rk_fpid := v\<rparr>) = kill_candidates rk"
  "kill_candidates (rk\<lparr>rk_killed := w\<rparr>) = kill_candidates rk"
  "kill_permitted env td (rk\<lparr>rk_fpid := v\<rparr>) = kill_permitted env td rk"
  "kill_permitted env td (rk\<lparr>rk_killed := w\<rparr>) = kill_permitted env td rk"
  by (simp_all add: fun_eq_iff kill_candidates_def kill_permitted_def)

lemma kill_candidates_Cons:
  "kill_candidates rk h (q # qs)
    = (if kill_matches rk h q then q # kill_candidates rk h qs else kill_candidates rk h qs)"
  by (simp add: kill_candidates_def)

lemma kill_permitted_Cons:
  "kill_permitted env td rk (q # qs)
    = (if p_cansignal env td q (rk_sig rk) = 0 then q # kill_permitted env td rk qs
       else kill_permitted env td rk qs)"
  by (simp add: kill_permitted_def)

lemma kill_sets_Nil [simp]:
  "kill_candidates rk h [] = []" "kill_permitted env td rk [] = []"
  by (simp_all add: kill_candidates_def kill_permitted_def)

lemma first_failure_Cons:
  "first_failure (e # es) = (if e \<noteq> ESRCH then e else first_failure es)"
  by (simp add: first_failure_def)

lemma reap_kill_loop_walk:
  "chain (kill_next rk) (procs s) p2 xs
    \<Longrightarrow> reap_kill_loop env td ksi p2 error rk s = Some (kill_walk env td ksi xs error rk s)"
proof (induction xs arbitrary: p2 error rk s)
  case Nil
  then show ?case by (subst reap_kill_loop.simps) simp
next
  case (Cons q qs)
  from Cons.prems have p2: "p2 = Some q"
    and rest: "chain (kill_next rk) (procs s) (kill_next rk (procs s q)) qs" by simp_all
  have a: "reap_kill_loop env td ksi (kill_next rk (procs s q)) e rk s
      = Some (kill_walk env td ksi qs e rk s)" for e
    using rest by (rule Cons.IH)
  have b: "reap_kill_loop env td ksi (kill_next rk (procs s q)) e (rk\<lparr>rk_fpid := v\<rparr>) s
      = Some (kill_walk env td ksi qs e (rk\<lparr>rk_fpid := v\<rparr>) s)" for e v
    using rest by (intro Cons.IH) simp
  have c: "reap_kill_loop env td ksi (kill_next rk (procs s q)) e (rk\<lparr>rk_killed := v\<rparr>)
        (s\<lparr>delivered := d\<rparr>)
      = Some (kill_walk env td ksi qs e (rk\<lparr>rk_killed := v\<rparr>) (s\<lparr>delivered := d\<rparr>))" for e v d
    using rest by (intro Cons.IH) simp
  show ?case
    unfolding p2
    by (subst reap_kill_loop.simps) (use a b c in \<open>simp add: kill_next_def Let_def\<close>)
qed

lemma kill_walk_delivered:
  "delivered (snd (snd (kill_walk env td ksi qs error rk s)))
    = delivered s @ map (\<lambda>q. (q, ksi)) (kill_permitted env td rk (kill_candidates rk (procs s) qs))"
proof (induction qs arbitrary: error rk s)
  case Nil
  show ?case by simp
next
  case (Cons q qs)
  show ?case
    by (simp add: Cons.IH kill_candidates_Cons kill_permitted_Cons) (simp add: kill_matches_def)
qed

lemma kill_walk_killed:
  "rk_killed (fst (snd (kill_walk env td ksi qs error rk s)))
    = rk_killed rk + of_nat (length (kill_permitted env td rk (kill_candidates rk (procs s) qs)))"
proof (induction qs arbitrary: error rk s)
  case Nil
  show ?case by simp
next
  case (Cons q qs)
  show ?case
    by (simp add: Cons.IH kill_candidates_Cons kill_permitted_Cons) (simp add: kill_matches_def)
qed

lemma kill_walk_error:
  "fst (kill_walk env td ksi qs error rk s)
    = (if kill_permitted env td rk (kill_candidates rk (procs s) qs) \<noteq> [] then 0
       else if error \<noteq> ESRCH then error
       else first_failure (map (\<lambda>q. p_cansignal env td q (rk_sig rk))
              (kill_candidates rk (procs s) qs)))"
proof (induction qs arbitrary: error rk s)
  case Nil
  show ?case by (simp add: first_failure_def)
next
  case (Cons q qs)
  show ?case
  proof (cases "kill_matches rk (procs s) q")
    case False
    then show ?thesis
      by (simp add: Cons.IH kill_candidates_Cons) (simp add: kill_matches_def)
  next
    case True
    then have m: "\<not> (rk_flags rk AND REAPER_KILL_SUBTREE \<noteq> 0
        \<and> p_reapsubtree (procs s q) \<noteq> rk_subtree rk)"
      by (auto simp add: kill_matches_def)
    show ?thesis
    proof (cases "p_cansignal env td q (rk_sig rk) = 0")
      case ok: True
      show ?thesis
        using True ok m
        by (auto simp add: Cons.IH kill_candidates_Cons kill_permitted_Cons ESRCH_def)
    next
      case no: False
      show ?thesis
        using True no m
        by (auto simp add: Cons.IH kill_candidates_Cons kill_permitted_Cons first_failure_Cons)
    qed
  qed
qed

text \<open>
  What \<open>reap_kill\<close> returns once its three checks have passed, over a well-formed list.
\<close>

lemma reap_kill_walk:
  assumes "\<not> td_capmode td" "0 < rk_sig rk" "rk_sig rk \<le> SIG_MAXSIG"
    and "rk_flags rk AND NOT REAPER_KILL_CHILDREN = 0"
    and "reaper_of (procs s) p = Some reap"
    and "chain (kill_next rk) (procs s) (kill_first rk (procs s) reap) xs"
  shows "reap_kill env td s p rk = Some (Ret (kill_walk env td
      \<lparr>ksi_signo = rk_sig rk, ksi_code = SI_USER,
       ksi_pid = p_pid (procs s (td_proc td)), ksi_uid = td_ruid td\<rparr>
      xs ESRCH (rk\<lparr>rk_killed := 0, rk_fpid := - 1\<rparr>) s))"
proof -
  have "chain (kill_next (rk\<lparr>rk_killed := 0, rk_fpid := - 1\<rparr>)) (procs s)
      (kill_first rk (procs s) reap) xs"
    using assms(6) by simp
  from reap_kill_loop_walk [OF this] show ?thesis
    using assms(1-5) by (simp add: reap_kill_def kill_first_def)
qed


subsection \<open>The two walks of \<open>reap_getpids\<close> over a well-formed list\<close>

lemma reaplist_count_chain:
  "chain p_reapsibling h p2 xs \<Longrightarrow> reaplist_count h p2 n = Some (n + of_nat (length xs))"
proof (induction xs arbitrary: p2 n)
  case Nil
  then show ?case by (subst reaplist_count.simps) simp
next
  case (Cons q qs)
  then show ?case by (subst reaplist_count.simps) (simp add: ac_simps)
qed

lemma word_inc_below:
  fixes i n :: "32 word"
  assumes "i \<le> n" "i \<noteq> n"
  shows "i + 1 \<le> n" and "unat (i + 1) = Suc (unat i)"
proof -
  from assms have lt: "i < n" by simp
  then show "i + 1 \<le> n" by (rule inc_le)
  from lt have "unat i < unat n" by (simp add: word_less_nat_alt)
  moreover have "unat n < 2 ^ LENGTH(32)" by (rule unsigned_less)
  ultimately have "unat i + unat (1 :: 32 word) < 2 ^ LENGTH(32)" by simp
  then have "unat (i + 1) = unat i + unat (1 :: 32 word)"
    by (simp only: unat_add_lem)
  then show "unat (i + 1) = Suc (unat i)" by simp
qed

lemma getpids_fill_chain:
  assumes "chain p_reapsibling h p2 xs" "i \<le> n" "length pi = unat i"
  shows "\<exists>i' pi'. getpids_fill env h reap n p2 i pi = Some (i', pi')
     \<and> length pi' = unat i' \<and> i' \<le> n
     \<and> set pi' \<subseteq> set pi \<union> pidinfo_of env h reap ` set xs"
  using assms
proof (induction xs arbitrary: p2 i pi)
  case Nil
  then show ?case by (subst getpids_fill.simps) simp
next
  case (Cons q qs)
  from Cons.prems have p2: "p2 = Some q"
    and rest: "chain p_reapsibling h (p_reapsibling (h q)) qs" by simp_all
  show ?case
  proof (cases "i = n")
    case True
    then show ?thesis
      unfolding p2 using Cons.prems by (subst getpids_fill.simps) auto
  next
    case False
    with Cons.prems have le: "i + 1 \<le> n" and u: "unat (i + 1) = Suc (unat i)"
      by (simp_all add: word_inc_below)
    have len: "length (pi @ [pidinfo_of env h reap q]) = unat (i + 1)"
      using Cons.prems u by simp
    from Cons.IH [OF rest le len] obtain i' pi' where
      r: "getpids_fill env h reap n (p_reapsibling (h q)) (i + 1) (pi @ [pidinfo_of env h reap q])
          = Some (i', pi')"
      and a: "length pi' = unat i'" "i' \<le> n"
      and b: "set pi' \<subseteq> set (pi @ [pidinfo_of env h reap q]) \<union> pidinfo_of env h reap ` set qs"
      by blast
    have "getpids_fill env h reap n p2 i pi = Some (i', pi')"
      unfolding p2 using False r by (subst getpids_fill.simps) simp
    with a b show ?thesis by auto
  qed
qed


subsection \<open>The walk of \<open>protect_setchildren\<close> over a process tree\<close>

lemma setchildren_resume_top:
  "setchildren_resume env td flags tp tp ret h = Some (Ret (ret, h))"
  by (simp add: setchildren_resume_def setchildren_ascend.simps)

lemma setchildren_resume_sibling:
  "p \<noteq> tp \<Longrightarrow> p_sibling (h p) = Some q
    \<Longrightarrow> setchildren_resume env td flags tp p ret h = setchildren_loop env td flags tp q ret h"
  by (simp add: setchildren_resume_def setchildren_ascend.simps)

lemma setchildren_resume_parent:
  "p \<noteq> tp \<Longrightarrow> p_sibling (h p) = None \<Longrightarrow> p_pptr (h p) = Some pp
    \<Longrightarrow> setchildren_resume env td flags tp p ret h = setchildren_resume env td flags tp pp ret h"
  unfolding setchildren_resume_def
  by (subst setchildren_ascend.simps) simp

lemma setchildren_loop_unfold:
  "setchildren_loop env td flags tp p ret h =
    (case p_children (snd (protect_setchild env td h p flags) p) of
       Some c \<Rightarrow> setchildren_loop env td flags tp c
         (ret OR fst (protect_setchild env td h p flags)) (snd (protect_setchild env td h p flags))
     | None \<Rightarrow> setchildren_resume env td flags tp p
         (ret OR fst (protect_setchild env td h p flags)) (snd (protect_setchild env td h p flags)))"
  by (subst setchildren_loop.simps) (simp add: setchildren_resume_def Let_def split: option.split)

lemma protect_setchild_links:
  "tree_links (snd (protect_setchild env td h p flags) q) = tree_links (h q)"
  by (simp add: protect_setchild_def tree_links_def)

lemma visit_all_links:
  "tree_links (snd (visit_all env td flags qs ret h) q) = tree_links (h q)"
  by (induction qs arbitrary: ret h) (simp_all add: protect_setchild_links)

lemma visit_all_append:
  "visit_all env td flags (qs @ rs) ret h =
    visit_all env td flags rs (fst (visit_all env td flags qs ret h))
      (snd (visit_all env td flags qs ret h))"
  by (induction qs arbitrary: ret h) simp_all

lemma is_subtree_links:
  assumes links: "\<And>q. tree_links (h' q) = tree_links (h q)"
  shows "is_subtree h' t = is_subtree h t"
    and "is_forest h' par first ts = is_forest h par first ts"
proof -
  have eqs: "p_pptr (h' q) = p_pptr (h q)" "p_children (h' q) = p_children (h q)"
    "p_sibling (h' q) = p_sibling (h q)" for q
    using links [of q] by (simp_all add: tree_links_def)
  show "is_subtree h' t = is_subtree h t"
    and "is_forest h' par first ts = is_forest h par first ts"
  proof (induction t and ts arbitrary: and par first rule: pnodes_forest_nodes.induct)
    case (1 p cs)
    then show ?case by (simp add: eqs)
  next
    case 2
    show ?case by simp
  next
    case (3 t ts)
    then show ?case by (simp add: eqs)
  qed
qed

lemma visit_all_is_subtree:
  "is_subtree (snd (visit_all env td flags qs ret h)) t = is_subtree h t"
  "is_forest (snd (visit_all env td flags qs ret h)) par first ts = is_forest h par first ts"
  by (rule is_subtree_links, rule visit_all_links)+

lemma walk_forest:
  assumes trees: "\<And>c ret h. c \<in> set ts \<Longrightarrow> is_subtree h c
      \<Longrightarrow> tp \<notin> set (forest_nodes (pchildren c))
      \<Longrightarrow> setchildren_loop env td flags tp (proot c) ret h
          = resume_after env td flags tp (pnodes c) (proot c) ret h"
    and "ts \<noteq> []" "is_forest h par first ts" "tp \<notin> set (forest_nodes ts)"
  shows "setchildren_loop env td flags tp (proot (hd ts)) ret h
      = resume_after env td flags tp (forest_nodes ts) par ret h"
  using assms
proof (induction ts arbitrary: first ret h)
  case Nil
  then show ?case by simp
next
  case (Cons t ts)
  define ret1 where "ret1 = fst (visit_all env td flags (pnodes t) ret h)"
  define h1 where "h1 = snd (visit_all env td flags (pnodes t) ret h)"
  from Cons.prems(3) have par: "p_pptr (h (proot t)) = Some par"
    and sub: "is_subtree h t"
    and rest: "is_forest h par (p_sibling (h (proot t))) ts" by simp_all
  have links: "tree_links (h1 q) = tree_links (h q)" for q
    by (simp add: h1_def visit_all_links)
  have par1: "p_pptr (h1 (proot t)) = Some par"
    and sib1: "p_sibling (h1 (proot t)) = p_sibling (h (proot t))"
    using links [of "proot t"] par by (simp_all add: tree_links_def)
  have nodes_t: "set (pnodes t) \<subseteq> set (forest_nodes (t # ts))" by simp
  have root_in: "proot t \<in> set (pnodes t)" by (cases t) simp
  have kids_in: "set (forest_nodes (pchildren t)) \<subseteq> set (pnodes t)" by (cases t) auto
  from Cons.prems(4) root_in have ne: "proot t \<noteq> tp" by auto
  from Cons.prems(4) kids_in have "tp \<notin> set (forest_nodes (pchildren t))" by auto
  with Cons.prems(1) [of t h ret] sub
  have first_tree: "setchildren_loop env td flags tp (proot t) ret h
      = setchildren_resume env td flags tp (proot t) ret1 h1"
    by (simp add: resume_after_def ret1_def h1_def)
  show ?case
  proof (cases ts)
    case Nil
    with rest have "p_sibling (h (proot t)) = None" by simp
    with sib1 have s0: "p_sibling (h1 (proot t)) = None" by simp
    from ne s0 par1 have "setchildren_resume env td flags tp (proot t) ret1 h1
        = setchildren_resume env td flags tp par ret1 h1"
      by (rule setchildren_resume_parent [where p = "proot t" and h = h1 and pp = par])
    then show ?thesis
      using first_tree Nil by (simp add: resume_after_def ret1_def h1_def)
  next
    case (Cons t2 ts2)
    with rest have sib: "p_sibling (h (proot t)) = Some (proot t2)" by simp
    with sib1 have s1: "p_sibling (h1 (proot t)) = Some (proot t2)" by simp
    have rest1: "is_forest h1 par (p_sibling (h (proot t))) ts"
      using rest by (simp add: h1_def visit_all_is_subtree)
    have "setchildren_loop env td flags tp (proot (hd ts)) ret1 h1
        = resume_after env td flags tp (forest_nodes ts) par ret1 h1"
    proof (rule Cons.IH [OF _ _ rest1])
      show "ts \<noteq> []" using Cons by simp
      show "tp \<notin> set (forest_nodes ts)" using Cons.prems(4) by simp
      show "setchildren_loop env td flags tp (proot c) r g
          = resume_after env td flags tp (pnodes c) (proot c) r g"
        if "c \<in> set ts" "is_subtree g c" "tp \<notin> set (forest_nodes (pchildren c))" for c r g
        using that Cons.prems(1) [of c g r] by simp
    qed
    moreover from ne s1 have "setchildren_resume env td flags tp (proot t) ret1 h1
        = setchildren_loop env td flags tp (proot t2) ret1 h1"
      by (rule setchildren_resume_sibling [where p = "proot t" and h = h1 and q = "proot t2"])
    ultimately show ?thesis
      using first_tree Cons
      by (simp add: resume_after_def ret1_def h1_def visit_all_append)
  qed
qed


lemma walk_tree:
  "is_subtree h t \<Longrightarrow> tp \<notin> set (forest_nodes (pchildren t))
    \<Longrightarrow> setchildren_loop env td flags tp (proot t) ret h
        = resume_after env td flags tp (pnodes t) (proot t) ret h"
proof (induction t arbitrary: ret h)
  case (PNode p cs)
  define r1 where "r1 = ret OR fst (protect_setchild env td h p flags)"
  define h1 where "h1 = snd (protect_setchild env td h p flags)"
  have links: "tree_links (h1 q) = tree_links (h q)" for q
    by (simp add: h1_def protect_setchild_links)
  have kids: "p_children (h1 p) = p_children (h p)"
    using links [of p] by (simp add: tree_links_def)
  from PNode.prems(1) have "is_forest h p (p_children (h p)) cs" by simp
  then have forest1: "is_forest h1 p (p_children (h p)) cs"
    using is_subtree_links(2) [of h1 h, OF links] by simp
  have unfold: "setchildren_loop env td flags tp p ret h =
    (case p_children (h p) of
       Some c \<Rightarrow> setchildren_loop env td flags tp c r1 h1
     | None \<Rightarrow> setchildren_resume env td flags tp p r1 h1)"
    unfolding r1_def h1_def using kids [unfolded h1_def]
    by (subst setchildren_loop_unfold) simp
  have after: "resume_after env td flags tp (p # qs) p ret h
      = resume_after env td flags tp qs p r1 h1" for qs
    by (simp add: resume_after_def r1_def h1_def)
  show ?case
  proof (cases cs)
    case Nil
    with forest1 have "p_children (h p) = None" by simp
    with unfold show ?thesis
      using Nil after [of "[]"] by (simp add: resume_after_def)
  next
    case (Cons c cs')
    with forest1 have first: "p_children (h p) = Some (proot (hd cs))" by simp
    have "setchildren_loop env td flags tp (proot (hd cs)) r1 h1
        = resume_after env td flags tp (forest_nodes cs) p r1 h1"
    proof (rule walk_forest [OF _ _ forest1])
      show "cs \<noteq> []" using Cons by simp
      show "tp \<notin> set (forest_nodes cs)" using PNode.prems(2) by simp
      show "setchildren_loop env td flags tp (proot c) r g
          = resume_after env td flags tp (pnodes c) (proot c) r g"
        if "c \<in> set cs" "is_subtree g c" "tp \<notin> set (forest_nodes (pchildren c))" for c r g
        using that by (rule PNode.IH)
    qed
    with unfold first show ?thesis
      using after [of "forest_nodes cs"] by simp
  qed
qed

lemma protect_setchildren_tree:
  assumes "is_subtree h t" "distinct (pnodes t)"
  shows "protect_setchildren env td h (proot t) flags
      = Some (Ret (visit_all env td flags (pnodes t) 0 h))"
proof -
  from assms(2) have "proot t \<notin> set (forest_nodes (pchildren t))"
    by (cases t) simp
  from walk_tree [OF assms(1) this] show ?thesis
    by (simp add: protect_setchildren_def resume_after_def setchildren_resume_top)
qed

lemma protect_bits:
  "(x OR P_PROTECTED) AND P_SYSTEM = x AND P_SYSTEM"
  "(x AND NOT P_PROTECTED) AND P_SYSTEM = x AND P_SYSTEM"
  "(x OR P_PROTECTED) OR P_PROTECTED = x OR P_PROTECTED"
  "(x AND NOT P_PROTECTED) AND NOT P_PROTECTED = x AND NOT P_PROTECTED"
  "(y OR P2_INHERIT_PROTECTED) OR P2_INHERIT_PROTECTED = y OR P2_INHERIT_PROTECTED"
  "(y AND NOT P2_INHERIT_PROTECTED) AND NOT P2_INHERIT_PROTECTED = y AND NOT P2_INHERIT_PROTECTED"
  by (simp_all add: pflag_defs bit.conj_disj_distrib2 and.assoc or.assoc or_eq_0_iff)

lemma protected_bit_set: "(x OR P_PROTECTED) AND P_PROTECTED \<noteq> 0"
  by (simp add: pflag_defs bit.conj_disj_distrib2 or_eq_0_iff)

lemma pprot_op_set:
  assumes "PPROT_OP flags = PPROT_SET"
  shows "flags AND PPROT_SET \<noteq> 0"
proof -
  have "flags AND PPROT_SET = PPROT_OP flags AND PPROT_SET"
    by (simp add: pprot_defs and.assoc)
  then show ?thesis using assms by (simp add: pprot_defs)
qed

lemma set_protected_idem:
  "set_protected env td flags q (set_protected env td flags q pr) = set_protected env td flags q pr"
  by (simp add: set_protected_def protect_bits)

lemma set_protected_system:
  "p_flag (set_protected env td flags q pr) AND P_SYSTEM = p_flag pr AND P_SYSTEM"
  by (simp add: set_protected_def protect_bits)

lemma set_protected_sets:
  "p_flag pr AND P_SYSTEM = 0 \<Longrightarrow> p_cansched env td q = 0 \<Longrightarrow> flags AND PPROT_SET \<noteq> 0
    \<Longrightarrow> p_flag (set_protected env td flags q pr) AND P_PROTECTED \<noteq> 0"
  using protected_bit_set [of "p_flag pr"] by (simp add: set_protected_def)

lemma protect_setchild_eq:
  "protect_setchild env td h p flags
    = (if protectable env td h p then 1 else 0, h(p := set_protected env td flags p (h p)))"
  by (simp add: protect_setchild_def protectable_def set_protected_def)

lemma protectable_update:
  "protectable env td (h(p := set_protected env td flags p (h p))) q = protectable env td h q"
  by (simp add: protectable_def set_protected_system)

lemma visit_all_heap:
  "snd (visit_all env td flags qs ret h)
    = (\<lambda>q. if q \<in> set qs then set_protected env td flags q (h q) else h q)"
proof (induction qs arbitrary: ret h)
  case Nil
  show ?case by simp
next
  case (Cons p qs)
  show ?case
    by (simp add: Cons.IH protect_setchild_eq fun_eq_iff set_protected_idem)
qed

lemma visit_all_ret:
  "fst (visit_all env td flags qs ret h)
    = ret OR (if \<exists>q \<in> set qs. protectable env td h q then 1 else 0)"
proof (induction qs arbitrary: ret h)
  case Nil
  show ?case by simp
next
  case (Cons p qs)
  define h1 where "h1 = h(p := set_protected env td flags p (h p))"
  have same: "(\<exists>q \<in> set qs. protectable env td h1 q) = (\<exists>q \<in> set qs. protectable env td h q)"
    by (simp add: h1_def protectable_update)
  have step: "visit_all env td flags (p # qs) ret h
      = visit_all env td flags qs (ret OR (if protectable env td h p then 1 else 0)) h1"
    by (simp add: protect_setchild_eq h1_def)
  have "fst (visit_all env td flags (p # qs) ret h)
      = (ret OR (if protectable env td h p then 1 else 0))
          OR (if \<exists>q \<in> set qs. protectable env td h q then 1 else 0)"
    unfolding step Cons.IH same ..
  also have "\<dots> = ret OR (if \<exists>q \<in> set (p # qs). protectable env td h q then 1 else 0)"
    by (simp add: or.assoc)
  finally show ?case .
qed

lemma protect_set_walk_result:
  assumes priv: "priv_check env td = 0"
    and op: "PPROT_OP flags = PPROT_SET"
    and opts: "PPROT_FLAGS flags AND NOT (PPROT_DESCEND OR PPROT_INHERIT) = 0"
    and desc: "flags AND PPROT_DESCEND \<noteq> 0"
    and tree: "is_subtree h t" and dist: "distinct (pnodes t)"
  shows "protect_set env td h (proot t) flags
    = Some (Ret (if \<exists>q \<in> set (pnodes t). protectable env td h q then 0 else EPERM,
        \<lambda>q. if q \<in> set (pnodes t) then set_protected env td flags q (h q) else h q))"
proof -
  have one: "(1 :: 32 word) \<noteq> 0" by simp
  show ?thesis
    using priv op opts desc one
    by (simp add: protect_set_def protect_setchildren_tree [OF tree dist] visit_all_heap
        visit_all_ret case_prod_unfold)
qed

subsection \<open>The loop over the members of a process group\<close>

lemma walk_links_tree: "walk_links pr' = walk_links pr \<Longrightarrow> tree_links pr' = tree_links pr"
  by (simp add: walk_links_def)

lemma set_protected_walk_links:
  "walk_links (set_protected env td flags q pr) = walk_links pr"
  by (simp add: set_protected_def walk_links_def tree_links_def)

lemma has_subtree_links:
  assumes "\<And>x. walk_links (h' x) = walk_links (h x)"
  shows "has_subtree h' q = has_subtree h q"
proof -
  have "tree_links (h' x) = tree_links (h x)" for x
    using assms [of x] by (rule walk_links_tree)
  from is_subtree_links(1) [of h' h, OF this] show ?thesis
    by (simp add: has_subtree_def)
qed

lemma chain_links:
  assumes "\<And>x. walk_links (h' x) = walk_links (h x)"
  shows "chain p_pglist h' first ms = chain p_pglist h first ms"
proof -
  have "p_pglist (h' x) = p_pglist (h x)" for x
    using assms [of x] by (simp add: walk_links_def)
  then show ?thesis
    by (induction ms arbitrary: first) simp_all
qed

lemma protect_set_returns:
  assumes "has_subtree h q"
  shows "\<exists>error h'. protect_set env td h q flags = Some (Ret (error, h'))
     \<and> (\<forall>x. walk_links (h' x) = walk_links (h x))"
proof -
  from assms obtain t where t: "proot t = q" "is_subtree h t" "distinct (pnodes t)"
    by (auto simp add: has_subtree_def)
  have desc: "protect_setchildren env td h q flags
      = Some (Ret (visit_all env td flags (pnodes t) 0 h))"
    using protect_setchildren_tree [OF t(2,3), of env td flags] t(1) by simp
  have v: "walk_links (snd (visit_all env td flags (pnodes t) 0 h) x) = walk_links (h x)" for x
    by (simp add: visit_all_heap set_protected_walk_links)
  have c: "walk_links (snd (protect_setchild env td h q flags) x) = walk_links (h x)" for x
    by (simp add: protect_setchild_eq set_protected_walk_links)
  show ?thesis
    using v c by (simp add: protect_set_def desc case_prod_unfold)
qed

lemma trace_ctl_walk_links:
  "trace_ctl td h q st = Ret (error, h') \<Longrightarrow> walk_links (h' x) = walk_links (h x)"
  by (auto simp add: trace_ctl_def walk_links_def tree_links_def split: if_splits)

lemma single_group_returns:
  assumes com: "com = PROC_SPROTECT \<or> com = PROC_TRACE_CTL"
    and tree: "has_subtree (procs s) q"
  shows "\<exists>r. kern_procctl_single env td s q com data = Some r
     \<and> (\<forall>error s' data'. r = Ret (error, s', data')
          \<longrightarrow> (\<forall>x. walk_links (procs s' x) = walk_links (procs s x)))"
proof (cases "com = PROC_SPROTECT")
  case True
  show ?thesis
  proof (cases data)
    case (DInt flags)
    from protect_set_returns [OF tree, of env td flags] obtain error h' where
      "protect_set env td (procs s) q flags = Some (Ret (error, h'))"
      "\<forall>x. walk_links (h' x) = walk_links (procs s x)" by blast
    then show ?thesis
      using True DInt by (simp add: kern_procctl_single_def with_procs_def)
  qed (simp_all add: True kern_procctl_single_def)
next
  case False
  with com have tc: "com = PROC_TRACE_CTL" by simp
  show ?thesis
  proof (cases data)
    case (DInt st)
    show ?thesis
      using tc DInt trace_ctl_walk_links [of td "procs s" q st]
      by (cases "trace_ctl td (procs s) q st")
         (auto simp add: kern_procctl_single_def with_procs_def com_defs)
  qed (simp_all add: tc kern_procctl_single_def com_defs)
qed


lemma pg_first_error_Cons:
  "pg_first_error (e # es) = (if e \<noteq> 0 then e else pg_first_error es)"
  by (simp add: pg_first_error_def)

lemma pgrp_loop_results:
  assumes com: "com = PROC_SPROTECT \<or> com = PROC_TRACE_CTL"
    and "chain p_pglist (procs s) p ms"
    and "\<And>q. q \<in> set ms \<Longrightarrow> has_subtree (procs s) q"
  shows "\<exists>r. pg_results env td com ms s data = Some r
     \<and> pgrp_loop env td com p ok fe s data = Some (case r of
          Panic \<Rightarrow> Panic
        | Ret (es, s', data') \<Rightarrow>
            Ret (if 0 \<in> set es then 1 else ok,
                 if fe \<noteq> 0 then fe else pg_first_error es, s', data'))"
  using assms(2,3)
proof (induction ms arbitrary: p ok fe s data)
  case Nil
  then show ?case
    by (subst pgrp_loop.simps) (simp add: pg_first_error_def)
next
  case (Cons q qs)
  from Cons.prems(1) have p: "p = Some q"
    and rest: "chain p_pglist (procs s) (p_pglist (procs s q)) qs" by simp_all
  show ?case
  proof (cases "pg_skipped env td (procs s) q")
    case True
    from Cons.IH [where p = "p_pglist (procs s q)" and s = s and ok = ok and fe = fe
        and data = data, OF rest] Cons.prems(2)
    obtain r where r: "pg_results env td com qs s data = Some r"
      "pgrp_loop env td com (p_pglist (procs s q)) ok fe s data = Some (case r of
          Panic \<Rightarrow> Panic
        | Ret (es, s', data') \<Rightarrow>
            Ret (if 0 \<in> set es then 1 else ok,
                 if fe \<noteq> 0 then fe else pg_first_error es, s', data'))"
      by auto
    have "pgrp_loop env td com p ok fe s data
        = pgrp_loop env td com (p_pglist (procs s q)) ok fe s data"
      unfolding p using True by (subst pgrp_loop.simps) (simp add: pg_skipped_def)
    with r True show ?thesis by simp
  next
    case False
    from single_group_returns [OF com, of s q env td data] Cons.prems(2)
    obtain r1 where r1: "kern_procctl_single env td s q com data = Some r1"
      and keep: "\<And>error s' data' x. r1 = Ret (error, s', data')
          \<Longrightarrow> walk_links (procs s' x) = walk_links (procs s x)"
      by auto
    have step: "pgrp_loop env td com p ok fe s data =
      (case r1 of
         Panic \<Rightarrow> Some Panic
       | Ret (error, s', data') \<Rightarrow>
           pgrp_loop env td com (p_pglist (procs s' q))
             (if error = 0 then 1 else ok)
             (if error \<noteq> 0 \<and> fe = 0 then error else fe) s' data')"
      unfolding p using False r1 by (subst pgrp_loop.simps) (simp add: pg_skipped_def)
    show ?thesis
    proof (cases r1)
      case Panic
      with step r1 False show ?thesis by simp
    next
      case (Ret triple)
      obtain error s' data' where triple: "triple = (error, s', data')"
        by (cases triple)
      have links: "walk_links (procs s' x) = walk_links (procs s x)" for x
        using keep Ret triple by simp
      have nxt: "p_pglist (procs s' q) = p_pglist (procs s q)"
        using links [of q] by (simp add: walk_links_def)
      have rest': "chain p_pglist (procs s') (p_pglist (procs s' q)) qs"
        using rest chain_links [of "procs s'" "procs s", OF links] nxt by simp
      have trees': "has_subtree (procs s') x" if "x \<in> set qs" for x
        using that Cons.prems(2) [of x] has_subtree_links [of "procs s'" "procs s", OF links]
        by simp
      from Cons.IH [where p = "p_pglist (procs s' q)" and s = s'
          and ok = "if error = 0 then 1 else ok"
          and fe = "if error \<noteq> 0 \<and> fe = 0 then error else fe" and data = data',
          OF rest' trees']
      obtain r where r: "pg_results env td com qs s' data' = Some r"
        "pgrp_loop env td com (p_pglist (procs s' q))
            (if error = 0 then 1 else ok)
            (if error \<noteq> 0 \<and> fe = 0 then error else fe) s' data' = Some (case r of
          Panic \<Rightarrow> Panic
        | Ret (es, s'', data'') \<Rightarrow>
            Ret (if 0 \<in> set es then 1 else (if error = 0 then 1 else ok),
                 if (if error \<noteq> 0 \<and> fe = 0 then error else fe) \<noteq> 0
                 then (if error \<noteq> 0 \<and> fe = 0 then error else fe)
                 else pg_first_error es, s'', data''))"
        by auto
      show ?thesis
      proof (cases r)
        case Panic
        with r step r1 Ret triple False show ?thesis by simp
      next
        case (Ret quad)
        obtain es s'' data'' where quad: "quad = (es, s'', data'')"
          by (cases quad)
        from r step r1 \<open>r1 = Ret triple\<close> triple Ret quad False show ?thesis
          by (auto simp add: pg_first_error_Cons)
      qed
    qed
  qed
qed


lemma pg_aggregate_accumulators:
  "(if (if 0 \<in> set es then 1 else 0) \<noteq> (0 :: int) then 0
    else if pg_first_error es \<noteq> 0 then pg_first_error es else ESRCH) = pg_aggregate es"
proof (cases "0 \<in> set es")
  case True
  then show ?thesis by (simp add: pg_aggregate_def)
next
  case False
  then have "filter (\<lambda>e. e \<noteq> 0) es = es"
    by (induction es) auto
  with False show ?thesis
    by (cases es) (auto simp add: pg_aggregate_def pg_first_error_def)
qed

lemma kern_procctl_pgid_rejected:
  assumes "com \<in> {PROC_REAP_ACQUIRE, PROC_REAP_RELEASE, PROC_REAP_STATUS, PROC_REAP_GETPIDS,
      PROC_REAP_KILL, PROC_TRACE_STATUS}"
  shows "kern_procctl env td s P_PGID ident com data = Some (Ret (EINVAL, s, data))"
  using assms by (simp add: kern_procctl_def com_defs)

subsection \<open>The two no-trace flags\<close>

lemma trace_ctl_disable_exec_set:
  assumes "p_flag2 (h p) AND P2_NOTRACE_EXEC \<noteq> 0"
    and "trace_ctl td h p PROC_TRACE_CTL_DISABLE = Ret (0, h')"
  shows "td_proc td = p
     \<and> h' = h(p := (h p)\<lparr>p_flag2 := p_flag2 (h p) AND NOT P2_NOTRACE_EXEC\<rparr>)
     \<and> p_flag2 (h' p) AND P2_NOTRACE \<noteq> 0
     \<and> trace_status h' p = Ret (0, - 1)"
  using assms
  by (auto simp: trace_ctl_def trace_status_def trace_state_defs errno_defs pflag_defs
      and.assoc split: if_splits)

lemma trace_ctl_notrace_inv:
  "trace_ctl td h p st = Ret (e, h') \<and> notrace_inv (h q) \<longrightarrow> notrace_inv (h' q)"
  by (auto simp: trace_ctl_def notrace_inv_def pflag_defs and.assoc bit.conj_disj_distrib2
      or_eq_0_iff split: if_splits)

subsection \<open>The concrete inputs, unfolded together\<close>

lemmas scenario_defs = permissive_env_def deny_env_def jail_env_def thread_of_def
  empty_kstate_def idle_heap_def plain_proc_def three_children_heap_def two_reaped_heap_def
  kill_request_def user_ksi_def notrace_exec_heap_def notrace_heap_def traced_heap_def
  reaper_heap_def acquire_with_payload_def pids_request_def
  family_heap_def family_tree_def group_heap_def group_heap_after_def group_env_def

section \<open>The claims\<close>

text \<open>
  C1. A \<open>reap_kill\<close> whose flags are among \<open>REAPER_KILL_CHILDREN\<close> and
  \<open>REAPER_KILL_SUBTREE\<close> and whose signal is valid is claimed not to fail with \<open>EINVAL\<close>,
  and with \<open>REAPER_KILL_SUBTREE\<close> to signal only the processes whose \<open>p_reapsubtree\<close> is the
  requested one. The loop of \<open>reap_kill\<close> does filter by \<open>p_reapsubtree\<close>, but the check of
  \<open>rk_flags\<close> before it admits \<open>REAPER_KILL_CHILDREN\<close> only: every request that carries
  \<open>REAPER_KILL_SUBTREE\<close> is answered with \<open>EINVAL\<close> outside capability mode, whatever its
  signal, and nothing is signalled.
\<close>

theorem reap_kill_subtree_flag_rejected:
  "\<not> td_capmode td \<Longrightarrow> rk_flags rk AND REAPER_KILL_SUBTREE \<noteq> 0
    \<Longrightarrow> reap_kill env td s p rk = Some (Ret (EINVAL, rk, s))"
  by (simp add: reap_kill_def kill_subtree_bit_not_children)

theorem reap_kill_subtree_flag_rejected_witness:
  "\<not> td_capmode (thread_of 2)
   \<and> rk_flags (kill_request REAPER_KILL_SUBTREE) AND REAPER_KILL_SUBTREE \<noteq> 0
   \<and> 0 < rk_sig (kill_request REAPER_KILL_SUBTREE)
   \<and> rk_sig (kill_request REAPER_KILL_SUBTREE) \<le> SIG_MAXSIG
   \<and> rk_flags (kill_request REAPER_KILL_SUBTREE)
        AND NOT (REAPER_KILL_CHILDREN OR REAPER_KILL_SUBTREE) = 0
   \<and> reap_kill permissive_env (thread_of 2) (empty_kstate three_children_heap) 2
        (kill_request REAPER_KILL_SUBTREE)
       = Some (Ret (EINVAL, kill_request REAPER_KILL_SUBTREE, empty_kstate three_children_heap))"
proof -
  have h1: "\<not> td_capmode (thread_of 2)"
    and h2: "rk_flags (kill_request REAPER_KILL_SUBTREE) AND REAPER_KILL_SUBTREE \<noteq> 0"
    and h3: "0 < rk_sig (kill_request REAPER_KILL_SUBTREE)"
    and h4: "rk_sig (kill_request REAPER_KILL_SUBTREE) \<le> SIG_MAXSIG"
    and h5: "rk_flags (kill_request REAPER_KILL_SUBTREE)
        AND NOT (REAPER_KILL_CHILDREN OR REAPER_KILL_SUBTREE) = 0"
    by (simp_all add: thread_of_def kill_request_def reaper_defs SIG_MAXSIG_def)
  from reap_kill_subtree_flag_rejected [OF h1 h2] h1 h2 h3 h4 h5 show ?thesis by blast
qed

text \<open>
  C2. With \<open>REAPER_KILL_CHILDREN\<close>, a reaper with exactly three children and exactly one of
  them that the caller may not signal, the claim is: two processes killed, success, and
  \<open>rk_fpid\<close> left at \<open>-1\<close> wherever the refused child stands in the list. The first two hold.
  \<open>rk_fpid\<close> is written when a child is refused before any child was signalled and is not
  reset by a later success: when the refused child is the first of the list, \<open>rk_fpid\<close> is
  its pid.
\<close>

theorem reap_kill_first_child_denied_counterexample:
  "reap_kill (deny_env 2) (thread_of 1) (empty_kstate three_children_heap) 1
      (kill_request REAPER_KILL_CHILDREN)
    = Some (Ret (0, (kill_request REAPER_KILL_CHILDREN)\<lparr>rk_killed := 2, rk_fpid := 102\<rparr>,
        (empty_kstate three_children_heap)\<lparr>delivered := [(3, user_ksi), (4, user_ksi)]\<rparr>))
   \<and> (102 :: 32 word) \<noteq> - 1"
  by (simp add: reap_kill_def reap_kill_loop.simps reaper_of_def scenario_defs
      errno_defs reaper_defs pflag_defs SIG_MAXSIG_def SI_USER_def)

text \<open>
  C2, as the code has it. Under the same conditions the call succeeds with \<open>rk_killed = 2\<close> wherever
  the refused child stands; \<open>rk_fpid\<close> is the pid of the refused child when that child is the
  first of the list and \<open>-1\<close> when it is the second or the third.
\<close>

theorem reap_kill_three_children:
  assumes "\<not> td_capmode td" "0 < rk_sig rk" "rk_sig rk \<le> SIG_MAXSIG"
    and fl: "rk_flags rk = REAPER_KILL_CHILDREN"
    and "reaper_of (procs s) p = Some reap"
    and ch: "chain p_sibling (procs s) (p_children (procs s reap)) [a, b, c]"
    and one: "length (filter (\<lambda>q. p_cansignal env td q (rk_sig rk) \<noteq> 0) [a, b, c]) = 1"
  shows "\<exists>rk' s'. reap_kill env td s p rk = Some (Ret (0, rk', s'))
     \<and> rk_killed rk' = 2
     \<and> rk_fpid rk' = (if p_cansignal env td a (rk_sig rk) \<noteq> 0 then p_pid (procs s a) else - 1)"
proof -
  have f0: "rk_flags rk AND NOT REAPER_KILL_CHILDREN = 0"
    and f1: "rk_flags rk AND REAPER_KILL_SUBTREE = 0"
    and f2: "rk_flags rk AND REAPER_KILL_CHILDREN \<noteq> 0"
    by (simp_all add: fl reaper_defs)
  have nxt: "kill_next rk = p_sibling"
    by (simp add: fun_eq_iff kill_next_def f2)
  have "chain (kill_next rk) (procs s) (kill_first rk (procs s) reap) [a, b, c]"
    using ch by (simp add: nxt kill_first_def f2)
  from reap_kill_walk [OF assms(1-3) f0 assms(5) this, of env]
  show ?thesis
    using one by (auto simp add: f1 ESRCH_def split: if_splits)
qed

theorem reap_kill_three_children_witness:
  "\<not> td_capmode (thread_of 1)
   \<and> 0 < rk_sig (kill_request REAPER_KILL_CHILDREN)
   \<and> rk_sig (kill_request REAPER_KILL_CHILDREN) \<le> SIG_MAXSIG
   \<and> rk_flags (kill_request REAPER_KILL_CHILDREN) = REAPER_KILL_CHILDREN
   \<and> reaper_of (procs (empty_kstate three_children_heap)) 1 = Some 1
   \<and> chain p_sibling (procs (empty_kstate three_children_heap))
        (p_children (procs (empty_kstate three_children_heap) 1)) [2, 3, 4]
   \<and> length (filter (\<lambda>q. p_cansignal (deny_env 3) (thread_of 1) q
        (rk_sig (kill_request REAPER_KILL_CHILDREN)) \<noteq> 0) [2, 3, 4]) = 1
   \<and> (\<exists>rk' s'. reap_kill (deny_env 3) (thread_of 1) (empty_kstate three_children_heap) 1
          (kill_request REAPER_KILL_CHILDREN) = Some (Ret (0, rk', s'))
        \<and> rk_killed rk' = 2 \<and> rk_fpid rk' = - 1)"
proof -
  have h1: "\<not> td_capmode (thread_of 1)"
    and h2: "0 < rk_sig (kill_request REAPER_KILL_CHILDREN)"
    and h3: "rk_sig (kill_request REAPER_KILL_CHILDREN) \<le> SIG_MAXSIG"
    and h4: "rk_flags (kill_request REAPER_KILL_CHILDREN) = REAPER_KILL_CHILDREN"
    and h5: "reaper_of (procs (empty_kstate three_children_heap)) 1 = Some 1"
    and h6: "chain p_sibling (procs (empty_kstate three_children_heap))
        (p_children (procs (empty_kstate three_children_heap) 1)) [2, 3, 4]"
    and h7: "length (filter (\<lambda>q. p_cansignal (deny_env 3) (thread_of 1) q
        (rk_sig (kill_request REAPER_KILL_CHILDREN)) \<noteq> 0) [2, 3, 4]) = 1"
    by (simp_all add: scenario_defs reaper_of_def SIG_MAXSIG_def pflag_defs errno_defs)
  have h8: "p_cansignal (deny_env 3) (thread_of 1) 2
        (rk_sig (kill_request REAPER_KILL_CHILDREN)) = 0"
    by (simp add: scenario_defs)
  have "\<exists>rk' s'. reap_kill (deny_env 3) (thread_of 1) (empty_kstate three_children_heap) 1
          (kill_request REAPER_KILL_CHILDREN) = Some (Ret (0, rk', s'))
        \<and> rk_killed rk' = 2 \<and> rk_fpid rk' = - 1"
    using reap_kill_three_children [OF h1 h2 h3 h4 h5 h6 h7] unfolding h8 by simp
  with h1 h2 h3 h4 h5 h6 h7 show ?thesis by blast
qed

text \<open>
  C3. The loop of \<open>reap_kill\<close> is claimed to try every candidate, to return success when
  \<open>rk_killed > 0\<close>, else the first failure of a candidate, and \<open>ESRCH\<close> when there was no
  candidate. \<open>ESRCH\<close> is also the value that stands for "no failure recorded yet": a
  candidate refused with \<open>ESRCH\<close> leaves the record open, and the next refusal overwrites it.
\<close>

theorem reap_kill_first_failure_counterexample:
  "reap_kill jail_env (thread_of 1) (empty_kstate two_reaped_heap) 1 (kill_request 0)
    = Some (Ret (EPERM, (kill_request 0)\<lparr>rk_killed := 0, rk_fpid := 103\<rparr>,
        empty_kstate two_reaped_heap))
   \<and> p_cansignal jail_env (thread_of 1) 2 (rk_sig (kill_request 0)) = ESRCH
   \<and> ESRCH \<noteq> EPERM"
  by (simp add: reap_kill_def reap_kill_loop.simps reaper_of_def scenario_defs
      errno_defs reaper_defs pflag_defs SIG_MAXSIG_def SI_USER_def)

text \<open>
  C3, as the code has it. The statement is about the requests that pass the argument checks
  of \<open>reap_kill\<close>: outside capability mode, with a valid signal and with no flag but
  \<open>REAPER_KILL_CHILDREN\<close>. For such a request no subtree filter applies, and the candidates
  are all the processes of the walked list (the children of the reaper, or its reap list).
  Over a well-formed list of fewer than \<open>2 ^ 32\<close> processes, \<open>reap_kill\<close> returns, having
  signalled every candidate the caller may signal, in the order of the list, with
  \<open>rk_killed\<close> their number (no refusal ends the loop). The result is success when
  \<open>rk_killed > 0\<close>; otherwise it is the first refusal other than \<open>ESRCH\<close>, and \<open>ESRCH\<close> when
  there is none, in particular when the list was empty.
\<close>

theorem reap_kill_outcome:
  assumes "\<not> td_capmode td" "0 < rk_sig rk" "rk_sig rk \<le> SIG_MAXSIG"
    and "rk_flags rk AND NOT REAPER_KILL_CHILDREN = 0"
    and "reaper_of (procs s) p = Some reap"
    and "chain (kill_next rk) (procs s) (kill_first rk (procs s) reap) xs"
    and len: "length xs < 2 ^ 32"
  shows "\<exists>error rk' s'. reap_kill env td s p rk = Some (Ret (error, rk', s'))
     \<and> map fst (delivered s')
         = map fst (delivered s) @ kill_permitted env td rk (kill_candidates rk (procs s) xs)
     \<and> unat (rk_killed rk') = length (kill_permitted env td rk (kill_candidates rk (procs s) xs))
     \<and> (0 < rk_killed rk' \<longrightarrow> error = 0)
     \<and> (rk_killed rk' = 0 \<longrightarrow> error = first_failure
           (map (\<lambda>q. p_cansignal env td q (rk_sig rk)) (kill_candidates rk (procs s) xs)))
     \<and> (kill_candidates rk (procs s) xs = [] \<longrightarrow> error = ESRCH)
     \<and> kill_candidates rk (procs s) xs = xs"
proof -
  have all: "kill_candidates rk (procs s) xs = xs"
    using kill_children_only_no_subtree [OF assms(4)]
    by (simp add: kill_candidates_def kill_matches_def)
  define ksi where "ksi = \<lparr>ksi_signo = rk_sig rk, ksi_code = SI_USER,
       ksi_pid = p_pid (procs s (td_proc td)), ksi_uid = td_ruid td\<rparr>"
  define rk0 where "rk0 = rk\<lparr>rk_killed := 0, rk_fpid := - 1\<rparr>"
  define w where "w = kill_walk env td ksi xs ESRCH rk0 s"
  define ok where "ok = kill_permitted env td rk (kill_candidates rk (procs s) xs)"
  have r: "reap_kill env td s p rk = Some (Ret (fst w, fst (snd w), snd (snd w)))"
    using reap_kill_walk [OF assms(1-6), of env] by (simp add: w_def ksi_def rk0_def)
  have "length ok \<le> length xs"
    by (simp add: ok_def kill_permitted_def kill_candidates_def)
  with len have small: "length ok < 2 ^ 32" by simp
  have k: "rk_killed (fst (snd w)) = of_nat (length ok)"
    by (simp add: w_def kill_walk_killed rk0_def ok_def)
  have u: "unat (rk_killed (fst (snd w))) = length ok"
    using small by (simp add: k unat_of_nat)
  have d: "map fst (delivered (snd (snd w))) = map fst (delivered s) @ ok"
    by (simp add: w_def kill_walk_delivered rk0_def ok_def comp_def)
  have e: "fst w = (if ok \<noteq> [] then 0 else first_failure
      (map (\<lambda>q. p_cansignal env td q (rk_sig rk)) (kill_candidates rk (procs s) xs)))"
    by (simp add: w_def kill_walk_error rk0_def ok_def)
  have pos: "0 < rk_killed (fst (snd w)) \<longleftrightarrow> ok \<noteq> []"
    using u by (simp add: word_less_nat_alt)
  have zero: "rk_killed (fst (snd w)) = 0 \<longleftrightarrow> ok = []"
    using u by (metis length_0_conv unat_eq_0)
  have emp: "kill_candidates rk (procs s) xs = [] \<Longrightarrow> fst w = ESRCH"
    by (simp add: e ok_def first_failure_def)
  show ?thesis
  proof (intro exI conjI)
    show "reap_kill env td s p rk = Some (Ret (fst w, fst (snd w), snd (snd w)))"
      by (rule r)
    show "map fst (delivered (snd (snd w)))
        = map fst (delivered s) @ kill_permitted env td rk (kill_candidates rk (procs s) xs)"
      using d by (simp add: ok_def)
    show "unat (rk_killed (fst (snd w)))
        = length (kill_permitted env td rk (kill_candidates rk (procs s) xs))"
      using u by (simp add: ok_def)
    show "0 < rk_killed (fst (snd w)) \<longrightarrow> fst w = 0"
      using pos e by simp
    show "rk_killed (fst (snd w)) = 0 \<longrightarrow> fst w = first_failure
        (map (\<lambda>q. p_cansignal env td q (rk_sig rk)) (kill_candidates rk (procs s) xs))"
      using zero e by simp
    show "kill_candidates rk (procs s) xs = [] \<longrightarrow> fst w = ESRCH"
      using emp by simp
    show "kill_candidates rk (procs s) xs = xs"
      by (rule all)
  qed
qed


theorem reap_kill_outcome_witness:
  "\<not> td_capmode (thread_of 1)
   \<and> 0 < rk_sig (kill_request 0) \<and> rk_sig (kill_request 0) \<le> SIG_MAXSIG
   \<and> rk_flags (kill_request 0) AND NOT REAPER_KILL_CHILDREN = 0
   \<and> reaper_of (procs (empty_kstate two_reaped_heap)) 1 = Some 1
   \<and> chain (kill_next (kill_request 0)) (procs (empty_kstate two_reaped_heap))
        (kill_first (kill_request 0) (procs (empty_kstate two_reaped_heap)) 1) [2, 3]
   \<and> length [2 :: handle, 3] < 2 ^ 32
   \<and> (\<exists>error rk' s'. reap_kill jail_env (thread_of 1) (empty_kstate two_reaped_heap) 1
          (kill_request 0) = Some (Ret (error, rk', s'))
        \<and> map fst (delivered s') = []
        \<and> unat (rk_killed rk') = 0
        \<and> (0 < rk_killed rk' \<longrightarrow> error = 0)
        \<and> (rk_killed rk' = 0 \<longrightarrow> error = EPERM))"
proof -
  have h1: "\<not> td_capmode (thread_of 1)"
    and h2: "0 < rk_sig (kill_request 0)"
    and h3: "rk_sig (kill_request 0) \<le> SIG_MAXSIG"
    and h4: "rk_flags (kill_request 0) AND NOT REAPER_KILL_CHILDREN = 0"
    and h5: "reaper_of (procs (empty_kstate two_reaped_heap)) 1 = Some 1"
    and h6: "chain (kill_next (kill_request 0)) (procs (empty_kstate two_reaped_heap))
        (kill_first (kill_request 0) (procs (empty_kstate two_reaped_heap)) 1) [2, 3]"
    and h7: "length [2 :: handle, 3] < 2 ^ 32"
    by (simp_all add: scenario_defs reaper_of_def kill_next_def kill_first_def SIG_MAXSIG_def
        pflag_defs errno_defs reaper_defs)
  have c: "kill_candidates (kill_request 0) (procs (empty_kstate two_reaped_heap)) [2, 3] = [2, 3]"
    by (simp add: kill_candidates_def kill_matches_def scenario_defs)
  have p: "kill_permitted jail_env (thread_of 1) (kill_request 0) [2, 3] = []"
    by (simp add: kill_permitted_def scenario_defs errno_defs)
  have f: "first_failure (map (\<lambda>q. p_cansignal jail_env (thread_of 1) q
      (rk_sig (kill_request 0))) [2, 3]) = EPERM"
    by (simp add: first_failure_def scenario_defs errno_defs)
  have "\<exists>error rk' s'. reap_kill jail_env (thread_of 1) (empty_kstate two_reaped_heap) 1
          (kill_request 0) = Some (Ret (error, rk', s'))
        \<and> map fst (delivered s') = []
        \<and> unat (rk_killed rk') = 0
        \<and> (0 < rk_killed rk' \<longrightarrow> error = 0)
        \<and> (rk_killed rk' = 0 \<longrightarrow> error = EPERM)"
    using reap_kill_outcome [OF h1 h2 h3 h4 h5 h6 h7, of jail_env] unfolding c p f
    by (simp add: empty_kstate_def)
  with h1 h2 h3 h4 h5 h6 h7 show ?thesis by blast
qed

text \<open>
  C4. The dispatcher lets two commands reach a process group, \<open>PROC_SPROTECT\<close> and
  \<open>PROC_TRACE_CTL\<close>; the others are answered with \<open>EINVAL\<close> before the group is looked up.
  For these two, over a well-formed member list of processes with well-formed subtrees,
  \<open>kern_procctl\<close> returns: the members that are new or that the caller cannot see are
  passed over, the operation is applied to the others in the order of the list, and the
  result is success when any application succeeded, else the first error of an
  application, else \<open>ESRCH\<close> when there was no application. A group of four with one
  member not visible, one refused with \<open>EPERM\<close> and two successes yields success.
\<close>

theorem kern_procctl_group:
  assumes com: "com = PROC_SPROTECT \<or> com = PROC_TRACE_CTL"
    and pg: "pgfind env ident = Some pg"
    and ch: "chain p_pglist (procs s) (pg_members pg) ms"
    and trees: "list_all (has_subtree (procs s)) ms"
  shows "\<exists>r. pg_results env td com ms s data = Some r
     \<and> kern_procctl env td s P_PGID ident com data = Some (case r of
          Panic \<Rightarrow> Panic
        | Ret (es, s', data') \<Rightarrow> Ret (pg_aggregate es, s', data'))"
proof -
  have "has_subtree (procs s) q" if "q \<in> set ms" for q
    using trees that by (simp add: list_all_iff)
  from pgrp_loop_results [where ok = 0 and fe = 0 and data = data and env = env and td = td,
      OF com ch this]
  obtain r where r: "pg_results env td com ms s data = Some r"
    and loop: "pgrp_loop env td com (pg_members pg) 0 0 s data = Some (case r of
          Panic \<Rightarrow> Panic
        | Ret (es, s', data') \<Rightarrow>
            Ret (if 0 \<in> set es then 1 else 0,
                 if (0 :: int) \<noteq> 0 then 0 else pg_first_error es, s', data'))"
    by auto
  have "kern_procctl env td s P_PGID ident com data = Some (case r of
          Panic \<Rightarrow> Panic
        | Ret (es, s', data') \<Rightarrow> Ret (pg_aggregate es, s', data'))"
  proof (cases r)
    case Panic
    with loop com pg show ?thesis
      by (auto simp add: kern_procctl_def com_defs)
  next
    case (Ret triple)
    obtain es s' data' where "triple = (es, s', data')" by (cases triple)
    with Ret loop com pg pg_aggregate_accumulators [of es] show ?thesis
      by (auto simp add: kern_procctl_def com_defs)
  qed
  with r show ?thesis by blast
qed

theorem kern_procctl_group_witness:
  "(PROC_TRACE_CTL = PROC_SPROTECT \<or> PROC_TRACE_CTL = PROC_TRACE_CTL)
   \<and> pgfind group_env 7 = Some \<lparr>pg_members = Some 41\<rparr>
   \<and> chain p_pglist (procs (empty_kstate group_heap)) (pg_members \<lparr>pg_members = Some 41\<rparr>)
        [41, 42, 43, 44]
   \<and> list_all (has_subtree (procs (empty_kstate group_heap))) [41, 42, 43, 44]
   \<and> pg_results group_env (thread_of 50) PROC_TRACE_CTL [41, 42, 43, 44]
        (empty_kstate group_heap) (DInt PROC_TRACE_CTL_DISABLE)
       = Some (Ret ([EPERM, 0, 0], empty_kstate group_heap_after, DInt PROC_TRACE_CTL_DISABLE))
   \<and> kern_procctl group_env (thread_of 50) (empty_kstate group_heap) P_PGID 7 PROC_TRACE_CTL
        (DInt PROC_TRACE_CTL_DISABLE)
       = Some (Ret (0, empty_kstate group_heap_after, DInt PROC_TRACE_CTL_DISABLE))"
proof -
  have h1: "PROC_TRACE_CTL = PROC_SPROTECT \<or> PROC_TRACE_CTL = PROC_TRACE_CTL"
    by simp
  have h2: "pgfind group_env 7 = Some \<lparr>pg_members = Some 41\<rparr>"
    by (simp add: group_env_def)
  have h3: "chain p_pglist (procs (empty_kstate group_heap))
      (pg_members \<lparr>pg_members = Some 41\<rparr>) [41, 42, 43, 44]"
    by (simp add: empty_kstate_def group_heap_def idle_heap_def plain_proc_def)
  have leaf: "has_subtree group_heap q" if "p_children (group_heap q) = None" for q
    unfolding has_subtree_def using that
    by (intro exI [of _ "PNode q []"]) simp
  have leaves: "has_subtree group_heap 41" "has_subtree group_heap 42"
    "has_subtree group_heap 43" "has_subtree group_heap 44"
    by (rule leaf, simp add: group_heap_def idle_heap_def plain_proc_def)+
  have h4: "list_all (has_subtree (procs (empty_kstate group_heap))) [41, 42, 43, 44]"
    by (simp add: empty_kstate_def leaves)
  have h5: "pg_results group_env (thread_of 50) PROC_TRACE_CTL [41, 42, 43, 44]
        (empty_kstate group_heap) (DInt PROC_TRACE_CTL_DISABLE)
       = Some (Ret ([EPERM, 0, 0], empty_kstate group_heap_after, DInt PROC_TRACE_CTL_DISABLE))"
    by (simp add: pg_skipped_def kern_procctl_single_def with_procs_def trace_ctl_def
        group_env_def permissive_env_def thread_of_def empty_kstate_def group_heap_after_def
        group_heap_def idle_heap_def plain_proc_def com_defs trace_state_defs pflag_defs
        errno_defs)
  have h6: "pg_aggregate [EPERM, 0, 0] = 0"
    by (simp add: pg_aggregate_def)
  from kern_procctl_group [where td = "thread_of 50" and data = "DInt PROC_TRACE_CTL_DISABLE",
      OF h1 h2 h3 h4]
  have "kern_procctl group_env (thread_of 50) (empty_kstate group_heap) P_PGID 7 PROC_TRACE_CTL
        (DInt PROC_TRACE_CTL_DISABLE)
       = Some (Ret (0, empty_kstate group_heap_after, DInt PROC_TRACE_CTL_DISABLE))"
    unfolding h5 by (simp add: h6)
  with h1 h2 h3 h4 h5 show ?thesis by blast
qed

text \<open>
  C5. \<open>reap_release\<close> on \<open>initproc\<close> is claimed to fail with \<open>EINVAL\<close> and \<open>reap_acquire\<close> on
  a process that is a reaper already with \<open>EBUSY\<close> (the AlreadyActive of the spec), for every
  process. Both functions first compare the process with the caller: called by another
  process, they fail with \<open>EPERM\<close>.
\<close>

theorem reap_release_other_caller_counterexample:
  "fst (reap_release permissive_env (thread_of 5) idle_heap (initproc permissive_env)) = EPERM
   \<and> EPERM \<noteq> EINVAL
   \<and> fst (reap_acquire (thread_of 5) (reaper_heap 7) 7) = EPERM
   \<and> EPERM \<noteq> EBUSY"
  by (simp add: reap_release_def reap_acquire_def curproc_def thread_of_def permissive_env_def
      errno_defs)

text \<open>
  C5, as the code has it. For every process that makes the call for itself, \<open>reap_release\<close>
  fails with \<open>EINVAL\<close> when the process is \<open>initproc\<close>, and \<open>reap_acquire\<close> fails with \<open>EBUSY\<close>
  when the process is a reaper already. For every call made by another process, whatever
  the target is, both fail with \<open>EPERM\<close>. In all these cases the process table is unchanged.
\<close>

theorem reap_release_acquire_self_errors:
  "curproc td = p \<Longrightarrow>
     (p = initproc env \<longrightarrow> reap_release env td h p = (EINVAL, h))
   \<and> (p_treeflag (h p) AND P_TREE_REAPER \<noteq> 0 \<longrightarrow> reap_acquire td h p = (EBUSY, h))
   \<and> (curproc td' \<noteq> p' \<longrightarrow>
        reap_release env' td' h' p' = (EPERM, h') \<and> reap_acquire td' h' p' = (EPERM, h'))"
  by (simp add: reap_release_def reap_acquire_def)

theorem reap_release_acquire_self_errors_witness:
  "curproc (thread_of 1) = 1 \<and> 1 = initproc permissive_env
   \<and> p_treeflag (reaper_heap 1 1) AND P_TREE_REAPER \<noteq> 0
   \<and> curproc (thread_of 5) \<noteq> initproc permissive_env
   \<and> reap_release permissive_env (thread_of 1) (reaper_heap 1) 1 = (EINVAL, reaper_heap 1)
   \<and> reap_acquire (thread_of 1) (reaper_heap 1) 1 = (EBUSY, reaper_heap 1)
   \<and> reap_release permissive_env (thread_of 5) (reaper_heap 1) (initproc permissive_env)
       = (EPERM, reaper_heap 1)
   \<and> reap_acquire (thread_of 5) (reaper_heap 1) (initproc permissive_env)
       = (EPERM, reaper_heap 1)"
proof -
  have h1: "curproc (thread_of 1) = 1"
    and h2: "1 = initproc permissive_env"
    and h3: "p_treeflag (reaper_heap 1 1) AND P_TREE_REAPER \<noteq> 0"
    and h4: "curproc (thread_of 5) \<noteq> initproc permissive_env"
    by (simp_all add: curproc_def thread_of_def permissive_env_def reaper_heap_def
        plain_proc_def P_TREE_REAPER_def)
  from reap_release_acquire_self_errors [OF h1, of permissive_env "reaper_heap 1"
      "thread_of 5" "initproc permissive_env" permissive_env "reaper_heap 1"] h1 h2 h3 h4
  show ?thesis by blast
qed

text \<open>
  C6. For a caller with the privilege, \<open>protect_set\<close> with the operation \<open>PPROT_SET\<close> and
  the option \<open>PPROT_DESCEND\<close> (with or without \<open>PPROT_INHERIT\<close>) on the root of a subtree
  of the process tree returns, and afterwards every process of the subtree, the root
  included, that is not a system process and that the caller may schedule has
  \<open>P_PROTECTED\<close> set; the other processes are as before. The same call made again returns
  the same result and leaves the whole process table as it is.
\<close>

theorem protect_set_descend:
  assumes priv: "priv_check env td = 0"
    and op: "PPROT_OP flags = PPROT_SET"
    and opts: "PPROT_FLAGS flags AND NOT (PPROT_DESCEND OR PPROT_INHERIT) = 0"
    and desc: "flags AND PPROT_DESCEND \<noteq> 0"
    and tree: "is_subtree h t" and dist: "distinct (pnodes t)"
  shows "\<exists>error h'. protect_set env td h (proot t) flags = Some (Ret (error, h'))
     \<and> (\<forall>q \<in> set (pnodes t). p_flag (h q) AND P_SYSTEM = 0 \<and> p_cansched env td q = 0
           \<longrightarrow> p_flag (h' q) AND P_PROTECTED \<noteq> 0)
     \<and> (\<forall>q. q \<notin> set (pnodes t) \<or> \<not> protectable env td h q \<longrightarrow> h' q = h q)
     \<and> protect_set env td h' (proot t) flags = Some (Ret (error, h'))"
proof -
  define h' where
    "h' = (\<lambda>q. if q \<in> set (pnodes t) then set_protected env td flags q (h q) else h q)"
  define error where
    "error = (if \<exists>q \<in> set (pnodes t). protectable env td h q then 0 else EPERM)"
  have first: "protect_set env td h (proot t) flags = Some (Ret (error, h'))"
    unfolding h'_def error_def by (rule protect_set_walk_result [OF assms])
  have links: "tree_links (h' q) = tree_links (h q)" for q
    by (simp add: h'_def set_protected_def tree_links_def)
  have tree': "is_subtree h' t"
    using tree is_subtree_links(1) [of h' h, OF links] by simp
  have same: "protectable env td h' q = protectable env td h q" for q
    by (simp add: h'_def protectable_def set_protected_system)
  have again: "(\<lambda>q. if q \<in> set (pnodes t) then set_protected env td flags q (h' q) else h' q) = h'"
    by (simp add: h'_def fun_eq_iff set_protected_idem)
  have second: "protect_set env td h' (proot t) flags = Some (Ret (error, h'))"
    using protect_set_walk_result [OF priv op opts desc tree' dist]
    by (simp add: again same error_def)
  have prot: "p_flag (h' q) AND P_PROTECTED \<noteq> 0"
    if "q \<in> set (pnodes t)" "p_flag (h q) AND P_SYSTEM = 0" "p_cansched env td q = 0" for q
    using that pprot_op_set [OF op] by (simp add: h'_def set_protected_sets)
  have frame: "h' q = h q" if "q \<notin> set (pnodes t) \<or> \<not> protectable env td h q" for q
    using that by (auto simp add: h'_def set_protected_def protectable_def)
  from first second prot frame show ?thesis by blast
qed

theorem protect_set_descend_witness:
  "priv_check permissive_env (thread_of 10) = 0
   \<and> PPROT_OP (PPROT_SET OR PPROT_DESCEND) = PPROT_SET
   \<and> PPROT_FLAGS (PPROT_SET OR PPROT_DESCEND) AND NOT (PPROT_DESCEND OR PPROT_INHERIT) = 0
   \<and> (PPROT_SET OR PPROT_DESCEND) AND PPROT_DESCEND \<noteq> 0
   \<and> is_subtree family_heap family_tree
   \<and> distinct (pnodes family_tree)
   \<and> (\<exists>error h'. protect_set permissive_env (thread_of 10) family_heap (proot family_tree)
          (PPROT_SET OR PPROT_DESCEND) = Some (Ret (error, h'))
        \<and> (\<forall>q \<in> set (pnodes family_tree).
              p_flag (family_heap q) AND P_SYSTEM = 0
                \<and> p_cansched permissive_env (thread_of 10) q = 0
              \<longrightarrow> p_flag (h' q) AND P_PROTECTED \<noteq> 0)
        \<and> (\<forall>q. q \<notin> set (pnodes family_tree)
                \<or> \<not> protectable permissive_env (thread_of 10) family_heap q
              \<longrightarrow> h' q = family_heap q)
        \<and> protect_set permissive_env (thread_of 10) h' (proot family_tree)
            (PPROT_SET OR PPROT_DESCEND) = Some (Ret (error, h')))"
proof -
  have h1: "priv_check permissive_env (thread_of 10) = 0"
    and h2: "PPROT_OP (PPROT_SET OR PPROT_DESCEND) = PPROT_SET"
    and h3: "PPROT_FLAGS (PPROT_SET OR PPROT_DESCEND) AND NOT (PPROT_DESCEND OR PPROT_INHERIT) = 0"
    and h4: "(PPROT_SET OR PPROT_DESCEND) AND PPROT_DESCEND \<noteq> 0"
    and h5: "is_subtree family_heap family_tree"
    and h6: "distinct (pnodes family_tree)"
    by (simp_all add: permissive_env_def pprot_defs family_heap_def family_tree_def group_heap_def group_heap_after_def group_env_def
        idle_heap_def plain_proc_def)
  from protect_set_descend [OF h1 h2 h3 h4 h5 h6] h1 h2 h3 h4 h5 h6 show ?thesis by blast
qed

text \<open>
  C7. \<open>reap_getpids\<close> hands to \<open>copyout\<close> at most \<open>rp_count\<close> entries, and each of them is
  the entry of a process that was on the reap list of the reaper when the list was walked
  for the second time, under the lock taken again: over well-formed reap lists the call
  returns, and what it stores in user memory, if anything, is such a sequence of entries.
\<close>

theorem reap_getpids_bounded:
  assumes reap: "reaper_of (procs s) p = Some reap"
    and ch1: "chain p_reapsibling (procs s) (p_reaplist (procs s reap)) xs1"
    and ch2: "chain p_reapsibling (relock env (procs s)) (p_reaplist (relock env (procs s) reap)) xs2"
  shows "\<exists>error s' pi. reap_getpids env s p rp = Some (Ret (error, s'))
     \<and> copied_out s' = (if error = 0 then copied_out s @ [(rp_pids rp, DPidinfo pi)]
                         else copied_out s)
     \<and> length pi \<le> unat (rp_count rp)
     \<and> set pi \<subseteq> pidinfo_of env (relock env (procs s)) reap ` set xs2
     \<and> pi_pid ` set pi \<subseteq> (\<lambda>q. p_pid (relock env (procs s) q)) ` set xs2"
proof -
  define n0 :: "32 word" where "n0 = of_nat (length xs1)"
  define n where "n = (if rp_count rp < n0 then rp_count rp else n0)"
  define h2 where "h2 = relock env (procs s)"
  have cnt: "reaplist_count (procs s) (p_reaplist (procs s reap)) 0 = Some n0"
    using reaplist_count_chain [OF ch1, of 0] by (simp add: n0_def)
  have n_le: "n \<le> rp_count rp"
    by (simp add: n_def not_less)
  have "chain p_reapsibling h2 (p_reaplist (h2 reap)) xs2"
    using ch2 by (simp add: h2_def)
  from getpids_fill_chain [OF this, of 0 n "[]" env reap]
  obtain i' pi' where
    fill: "getpids_fill env h2 reap n (p_reaplist (h2 reap)) 0 [] = Some (i', pi')"
    and len: "length pi' = unat i'" and le: "i' \<le> n"
    and sub: "set pi' \<subseteq> pidinfo_of env h2 reap ` set xs2"
    by auto
  have tk: "take (unat i') pi' = pi'"
    using len by simp
  have bound: "length pi' \<le> unat (rp_count rp)"
    using len le n_le by (simp add: word_le_nat_alt)
  have pids: "pi_pid ` set pi' \<subseteq> (\<lambda>q. p_pid (h2 q)) ` set xs2"
    using sub by (auto simp add: pidinfo_of_def)
  define s' where "s' = s\<lparr>procs := relock env h2,
        copied_out := (if copyout env (rp_pids rp) = 0
          then copied_out s @ [(rp_pids rp, DPidinfo pi')] else copied_out s)\<rparr>"
  have "reap_getpids env s p rp = Some (Ret (copyout env (rp_pids rp), s'))"
    using reap cnt fill tk
    by (simp add: reap_getpids_def Let_def n_def [symmetric] h2_def [symmetric] s'_def)
  moreover have "copied_out s' = (if copyout env (rp_pids rp) = 0
      then copied_out s @ [(rp_pids rp, DPidinfo pi')] else copied_out s)"
    by (simp add: s'_def)
  ultimately show ?thesis
    using bound sub pids unfolding h2_def by blast
qed

theorem reap_getpids_bounded_witness:
  "reaper_of (procs (empty_kstate three_children_heap)) 3 = Some 1
   \<and> chain p_reapsibling (procs (empty_kstate three_children_heap))
        (p_reaplist (procs (empty_kstate three_children_heap) 1)) [2, 3, 4]
   \<and> chain p_reapsibling (relock permissive_env (procs (empty_kstate three_children_heap)))
        (p_reaplist (relock permissive_env (procs (empty_kstate three_children_heap)) 1)) [2, 3, 4]
   \<and> (\<exists>error s' pi. reap_getpids permissive_env (empty_kstate three_children_heap) 3 pids_request
          = Some (Ret (error, s'))
        \<and> copied_out s' = (if error = 0
             then copied_out (empty_kstate three_children_heap)
               @ [(rp_pids pids_request, DPidinfo pi)]
             else copied_out (empty_kstate three_children_heap))
        \<and> length pi \<le> unat (rp_count pids_request)
        \<and> set pi \<subseteq> pidinfo_of permissive_env
              (relock permissive_env (procs (empty_kstate three_children_heap))) 1 ` set [2, 3, 4]
        \<and> pi_pid ` set pi \<subseteq> (\<lambda>q. p_pid
              (relock permissive_env (procs (empty_kstate three_children_heap)) q)) ` set [2, 3, 4])"
proof -
  have h1: "reaper_of (procs (empty_kstate three_children_heap)) 3 = Some 1"
    and h2: "chain p_reapsibling (procs (empty_kstate three_children_heap))
        (p_reaplist (procs (empty_kstate three_children_heap) 1)) [2, 3, 4]"
    and h3: "chain p_reapsibling (relock permissive_env (procs (empty_kstate three_children_heap)))
        (p_reaplist (relock permissive_env (procs (empty_kstate three_children_heap)) 1)) [2, 3, 4]"
    by (simp_all add: permissive_env_def empty_kstate_def three_children_heap_def idle_heap_def
        plain_proc_def reaper_of_def pflag_defs)
  from reap_getpids_bounded [OF h1 h2 h3, of pids_request] h1 h2 h3 show ?thesis by blast
qed

text \<open>
  C8. On a process that is traced, or whose \<open>p_traceflag\<close> is set, \<open>trace_ctl\<close> with
  \<open>PROC_TRACE_CTL_ENABLE\<close> fails with \<open>EBUSY\<close> and changes nothing; and after a \<open>trace_ctl\<close>
  with \<open>PROC_TRACE_CTL_DISABLE_EXEC\<close> that succeeded, \<open>trace_status\<close> reports \<open>-1\<close>.
\<close>

theorem trace_ctl_busy_and_disable_exec:
  "(p_flag (h p) AND P_TRACED \<noteq> 0 \<or> p_traceflag (h p) \<noteq> 0
      \<longrightarrow> trace_ctl td h p PROC_TRACE_CTL_ENABLE = Ret (EBUSY, h))
   \<and> (trace_ctl td' g q PROC_TRACE_CTL_DISABLE_EXEC = Ret (0, g')
      \<longrightarrow> trace_status g' q = Ret (0, - 1))"
  by (auto simp: trace_ctl_def trace_status_def trace_state_defs errno_defs pflag_defs
      and.assoc bit.conj_disj_distrib2 or_eq_0_iff split: if_splits)

theorem trace_ctl_busy_and_disable_exec_witness:
  "p_flag (traced_heap 3) AND P_TRACED \<noteq> 0
   \<and> trace_ctl (thread_of 3) traced_heap 3 PROC_TRACE_CTL_ENABLE = Ret (EBUSY, traced_heap)
   \<and> trace_ctl (thread_of 9) idle_heap 3 PROC_TRACE_CTL_DISABLE_EXEC
       = Ret (0, notrace_exec_heap)
   \<and> trace_status notrace_exec_heap 3 = Ret (0, - 1)"
proof -
  have h1: "p_flag (traced_heap 3) AND P_TRACED \<noteq> 0"
    by (simp add: traced_heap_def plain_proc_def P_TRACED_def)
  have h2: "trace_ctl (thread_of 9) idle_heap 3 PROC_TRACE_CTL_DISABLE_EXEC
       = Ret (0, notrace_exec_heap)"
    by (simp add: trace_ctl_def scenario_defs pflag_defs trace_state_defs)
  from trace_ctl_busy_and_disable_exec [of traced_heap 3 "thread_of 3" "thread_of 9" idle_heap 3
      notrace_exec_heap] h1 h2
  show ?thesis by blast
qed

text \<open>
  C9. When no-trace-on-exec is set and \<open>trace_ctl\<close> with \<open>PROC_TRACE_CTL_DISABLE\<close> succeeds,
  the call was made by the process itself, it has cleared \<open>P2_NOTRACE_EXEC\<close> and nothing
  else, \<open>P2_NOTRACE\<close> is still set and \<open>trace_status\<close> reports \<open>-1\<close>. Every \<open>trace_ctl\<close> that
  returns keeps the invariant of the two flags, for every process.
\<close>

theorem trace_ctl_disable_keeps_notrace:
  "(p_flag2 (h p) AND P2_NOTRACE_EXEC \<noteq> 0
      \<and> trace_ctl td h p PROC_TRACE_CTL_DISABLE = Ret (0, h')
     \<longrightarrow> td_proc td = p
       \<and> h' = h(p := (h p)\<lparr>p_flag2 := p_flag2 (h p) AND NOT P2_NOTRACE_EXEC\<rparr>)
       \<and> p_flag2 (h' p) AND P2_NOTRACE \<noteq> 0
       \<and> trace_status h' p = Ret (0, - 1))
   \<and> (trace_ctl td' g q st = Ret (e, g') \<and> notrace_inv (g r) \<longrightarrow> notrace_inv (g' r))"
  using trace_ctl_disable_exec_set [of h p td h'] trace_ctl_notrace_inv [of td' g q st e g' r]
  by blast

theorem trace_ctl_disable_keeps_notrace_witness:
  "p_flag2 (notrace_exec_heap 3) AND P2_NOTRACE_EXEC \<noteq> 0
   \<and> trace_ctl (thread_of 3) notrace_exec_heap 3 PROC_TRACE_CTL_DISABLE = Ret (0, notrace_heap)
   \<and> notrace_inv (notrace_exec_heap 3)
   \<and> td_proc (thread_of 3) = 3
   \<and> notrace_heap = notrace_exec_heap(3 := (notrace_exec_heap 3)
        \<lparr>p_flag2 := p_flag2 (notrace_exec_heap 3) AND NOT P2_NOTRACE_EXEC\<rparr>)
   \<and> p_flag2 (notrace_heap 3) AND P2_NOTRACE \<noteq> 0
   \<and> trace_status notrace_heap 3 = Ret (0, - 1)
   \<and> notrace_inv (notrace_heap 3)"
proof -
  have h1: "p_flag2 (notrace_exec_heap 3) AND P2_NOTRACE_EXEC \<noteq> 0"
    by (simp add: notrace_exec_heap_def plain_proc_def pflag_defs)
  have h2: "trace_ctl (thread_of 3) notrace_exec_heap 3 PROC_TRACE_CTL_DISABLE
      = Ret (0, notrace_heap)"
    by (simp add: trace_ctl_def scenario_defs pflag_defs trace_state_defs)
  have h3: "notrace_inv (notrace_exec_heap 3)"
    by (simp add: notrace_inv_def notrace_exec_heap_def plain_proc_def pflag_defs)
  from trace_ctl_disable_keeps_notrace [of notrace_exec_heap 3 "thread_of 3" notrace_heap
      "thread_of 3" notrace_exec_heap 3 PROC_TRACE_CTL_DISABLE 0 notrace_heap 3] h1 h2 h3
  show ?thesis by blast
qed

text \<open>
  C10. \<open>sys_procctl\<close> with \<open>PROC_REAP_ACQUIRE\<close> or \<open>PROC_REAP_RELEASE\<close> and a payload pointer
  that is not NULL returns \<open>EINVAL\<close> at once: whatever the lookups and the operations would
  do, the state is the one of the call.
\<close>

theorem sys_procctl_reap_payload_rejected:
  "uap_com uap = PROC_REAP_ACQUIRE \<or> uap_com uap = PROC_REAP_RELEASE \<Longrightarrow> uap_data uap \<noteq> None
    \<Longrightarrow> sys_procctl env td s uap = Some (Ret (EINVAL, s))"
  by (auto simp: sys_procctl_def com_defs)

theorem sys_procctl_reap_payload_rejected_witness:
  "(uap_com acquire_with_payload = PROC_REAP_ACQUIRE
      \<or> uap_com acquire_with_payload = PROC_REAP_RELEASE)
   \<and> uap_data acquire_with_payload \<noteq> None
   \<and> sys_procctl permissive_env (thread_of 5) (empty_kstate idle_heap) acquire_with_payload
       = Some (Ret (EINVAL, empty_kstate idle_heap))"
proof -
  have h1: "uap_com acquire_with_payload = PROC_REAP_ACQUIRE
      \<or> uap_com acquire_with_payload = PROC_REAP_RELEASE"
    and h2: "uap_data acquire_with_payload \<noteq> None"
    by (simp_all add: acquire_with_payload_def)
  from sys_procctl_reap_payload_rejected [OF h1 h2] h1 h2 show ?thesis by blast
qed

end
